theory Spec2Isabelle
  imports Main "HOL-Library.Sublist"
begin

section \<open>Python string primitives used by the parser\<close>

text \<open>
  A Python \<open>str\<close> is modelled as a \<open>string\<close>; every \<open>char\<close> stands for one code point
  (so the model covers the code points below 256).  Each primitive below is the
  built-in of the same name, with its behaviour on every argument written out.
\<close>

text \<open>\<open>s.startswith(sub)\<close>\<close>

fun startswith :: "string \<Rightarrow> string \<Rightarrow> bool" where
  "startswith s [] = True"
| "startswith [] (c # sub) = False"
| "startswith (d # s) (c # sub) = (d = c \<and> startswith s sub)"

text \<open>The lowest index at which \<open>sub\<close> occurs in \<open>s\<close>, if there is one.\<close>

fun find_idx :: "string \<Rightarrow> string \<Rightarrow> nat option" where
  "find_idx [] sub = (if sub = [] then Some 0 else None)"
| "find_idx (c # s) sub =
     (if startswith (c # s) sub then Some 0 else map_option Suc (find_idx s sub))"

text \<open>\<open>s.find(sub)\<close>: the lowest index, or \<open>-1\<close> when \<open>sub\<close> does not occur.\<close>

definition py_find :: "string \<Rightarrow> string \<Rightarrow> int" where
  "py_find s sub = (case find_idx s sub of None \<Rightarrow> - 1 | Some i \<Rightarrow> int i)"

text \<open>\<open>sub in s\<close>\<close>

definition py_in :: "string \<Rightarrow> string \<Rightarrow> bool" where
  "py_in sub s = (find_idx s sub \<noteq> None)"

text \<open>
  A slice bound: a negative bound counts from the end, and every bound is clamped to
  \<open>0 .. len(s)\<close>.
\<close>

definition slice_bound :: "nat \<Rightarrow> int \<Rightarrow> nat" where
  "slice_bound n i = (if i < 0 then nat (max 0 (int n + i)) else min n (nat i))"

text \<open>\<open>s[i:j]\<close> (empty when the normalised \<open>j\<close> is not above the normalised \<open>i\<close>)\<close>

definition py_slice :: "string \<Rightarrow> int \<Rightarrow> int \<Rightarrow> string" where
  "py_slice s i j =
     (let a = slice_bound (length s) i; b = slice_bound (length s) j
      in take (b - a) (drop a s))"

text \<open>\<open>s[i:]\<close>\<close>

definition py_slice_from :: "string \<Rightarrow> int \<Rightarrow> string" where
  "py_slice_from s i = drop (slice_bound (length s) i) s"

text \<open>\<open>s[:j]\<close>\<close>

definition py_slice_to :: "string \<Rightarrow> int \<Rightarrow> string" where
  "py_slice_to s j = take (slice_bound (length s) j) s"

text \<open>
  \<open>c.isspace()\<close> for the code points below 256: TAB, LF, VT, FF, CR, the separators
  FS, GS, RS, US, the space, NEL and the no-break space.
\<close>

definition isspace :: "char \<Rightarrow> bool" where
  "isspace c = ((of_char c :: nat) \<in> {9, 10, 11, 12, 13, 28, 29, 30, 31, 32, 133, 160})"

text \<open>\<open>s.strip()\<close>\<close>

definition py_strip :: "string \<Rightarrow> string" where
  "py_strip s = rev (dropWhile isspace (rev (dropWhile isspace s)))"

text \<open>
  \<open>s.replace(old, new)\<close>: the occurrences of \<open>old\<close> are found from left to right and do
  not overlap.  With an empty \<open>old\<close>, \<open>new\<close> is put before every character and at the end.
\<close>

fun replace_scan :: "string \<Rightarrow> string \<Rightarrow> string \<Rightarrow> string" where
  "replace_scan [] old new = []"
| "replace_scan (c # s) old new =
     (if startswith (c # s) old then new @ replace_scan (drop (length old - 1) s) old new
      else c # replace_scan s old new)"

definition py_replace :: "string \<Rightarrow> string \<Rightarrow> string \<Rightarrow> string" where
  "py_replace s old new =
     (if old = [] then new @ concat (map (\<lambda>c. c # new) s) else replace_scan s old new)"

text \<open>
  \<open>s.split(sep, 1)\<close> for a non-empty \<open>sep\<close> (the parser only splits at the constant
  \<open>think_end\<close>): the text before and the text after the first occurrence, or the whole
  text alone.
\<close>

definition py_split1 :: "string \<Rightarrow> string \<Rightarrow> string list" where
  "py_split1 s sep =
     (case find_idx s sep of
        None \<Rightarrow> [s]
      | Some i \<Rightarrow> [take i s, drop (i + length sep) s])"

text \<open>\<open>x if x else None\<close> for a string \<open>x\<close>\<close>

definition or_none :: "string \<Rightarrow> string option" where
  "or_none s = (if s = [] then None else Some s)"


section \<open>The RoboBrain reasoning parser\<close>

text \<open>The four text markers of the class.\<close>

definition think_start :: string where
  "think_start = ''<think>''"

definition think_end :: string where
  "think_end = ''</think>''"

definition answer_start :: string where
  "answer_start = ''<answer>''"

definition answer_end :: string where
  "answer_end = ''</answer>''"

text \<open>
  The tokenizer is outside the class: \<open>decode ids skip_special_tokens\<close> and
  \<open>encode text add_special_tokens\<close> are taken as they are given.
\<close>

record tokenizer =
  decode :: "int list \<Rightarrow> bool \<Rightarrow> string"
  encode :: "string \<Rightarrow> bool \<Rightarrow> int list"

text \<open>\<open>current_state\<close> is one of the strings "initial", "thinking", "content".\<close>

datatype phase = Initial | Thinking | Content

record parser =
  model_tokenizer :: tokenizer
  current_state :: phase
  buffer :: string
  thinking_complete :: bool

text \<open>\<open>DeltaMessage\<close>: the two fields the parser sets; a field not given is \<open>None\<close>.\<close>

record delta_message =
  reasoning_content :: "string option"
  content :: "string option"

text \<open>\<open>__init__\<close>\<close>

definition init :: "tokenizer \<Rightarrow> parser" where
  "init tok =
     \<lparr>model_tokenizer = tok, current_state = Initial, buffer = [], thinking_complete = False\<rparr>"

definition is_reasoning_end :: "parser \<Rightarrow> int list \<Rightarrow> bool" where
  "is_reasoning_end self input_ids =
     (let text = decode (model_tokenizer self) input_ids True
      in py_in think_end text)"

definition extract_content_ids :: "parser \<Rightarrow> int list \<Rightarrow> int list" where
  "extract_content_ids self input_ids =
     (let text = decode (model_tokenizer self) input_ids True
      in if py_in think_end text then
           (let parts = py_split1 text think_end
            in if length parts > 1 then
                 (let content_text = parts ! 1;
                      content_text = py_replace (py_replace content_text answer_start []) answer_end []
                  in encode (model_tokenizer self) content_text False)
               else [])
         else [])"

definition extract_reasoning_content ::
    "parser \<Rightarrow> string \<Rightarrow> 'request \<Rightarrow> string option \<times> string option" where
  "extract_reasoning_content self model_output request =
     (let (reasoning_content, answer_content) =
        (if py_in think_start model_output \<and> py_in think_end model_output then
           (let start_idx = py_find model_output think_start + int (length think_start);
                end_idx = py_find model_output think_end;
                reasoning_content = py_strip (py_slice model_output start_idx end_idx);
                remaining = py_strip (py_slice_from model_output (end_idx + int (length think_end)))
            in if py_in answer_start remaining \<and> py_in answer_end remaining then
                 (let answer_start_idx = py_find remaining answer_start + int (length answer_start);
                      answer_end_idx = py_find remaining answer_end
                  in (Some reasoning_content,
                      Some (py_strip (py_slice remaining answer_start_idx answer_end_idx))))
               else if py_in answer_start remaining then
                 (let answer_start_idx = py_find remaining answer_start + int (length answer_start)
                  in (Some reasoning_content,
                      Some (py_strip (py_slice_from remaining answer_start_idx))))
               else (Some reasoning_content, Some remaining))
         else if py_in think_start model_output then
           (let start_idx = py_find model_output think_start + int (length think_start)
            in (Some (py_strip (py_slice_from model_output start_idx)), None))
         else if py_in answer_start model_output \<and> py_in answer_end model_output then
           (let answer_start_idx = py_find model_output answer_start + int (length answer_start);
                answer_end_idx = py_find model_output answer_end
            in (None, Some (py_strip (py_slice model_output answer_start_idx answer_end_idx))))
         else if py_in answer_start model_output then
           (let answer_start_idx = py_find model_output answer_start + int (length answer_start)
            in (None, Some (py_strip (py_slice_from model_output answer_start_idx))))
         else (None, Some (py_strip model_output)))
      in (if reasoning_content = Some [] then None else reasoning_content,
          if answer_content = Some [] then None else answer_content))"

definition extract_reasoning_content_streaming ::
    "parser \<Rightarrow> string \<Rightarrow> string \<Rightarrow> string \<Rightarrow> int list \<Rightarrow> int list \<Rightarrow> int list
       \<Rightarrow> parser \<times> delta_message option" where
  "extract_reasoning_content_streaming self0 previous_text current_text delta_text
       previous_token_ids current_token_ids delta_token_ids =
     (let self = self0\<lparr>buffer := current_text\<rparr>
      in if current_state self = Initial then
           if py_in think_start (buffer self) then
             (let self = self\<lparr>current_state := Thinking\<rparr>
              in if py_in think_end delta_text then
                   (let think_start_idx = py_find delta_text think_start;
                        think_end_idx = py_find delta_text think_end
                    in if think_start_idx < think_end_idx then
                         (let reasoning = py_slice delta_text
                                (think_start_idx + int (length think_start)) think_end_idx;
                              remaining = py_slice_from delta_text
                                (think_end_idx + int (length think_end));
                              remaining = py_replace (py_replace remaining answer_start [])
                                answer_end []
                          in (self\<lparr>current_state := Content, thinking_complete := True\<rparr>,
                              Some \<lparr>reasoning_content = or_none reasoning,
                                    content = or_none remaining\<rparr>))
                       else (self, None))
                 else if py_in think_start delta_text then
                   (let idx = py_find delta_text think_start + int (length think_start);
                        reasoning = py_slice_from delta_text idx
                    in (self, Some \<lparr>reasoning_content = or_none reasoning, content = None\<rparr>))
                 else (self, Some \<lparr>reasoning_content = Some delta_text, content = None\<rparr>))
           else if py_in answer_start delta_text then
             (let self = self\<lparr>current_state := Content\<rparr>;
                  content = py_replace (py_replace delta_text answer_start []) answer_end []
              in (self, Some \<lparr>reasoning_content = None, content = or_none content\<rparr>))
           else if delta_text \<noteq> [] then
             (self, Some \<lparr>reasoning_content = None, content = Some delta_text\<rparr>)
           else (self, None)
         else if current_state self = Thinking then
           if py_in think_end delta_text then
             (let self = self\<lparr>current_state := Content, thinking_complete := True\<rparr>;
                  idx = py_find delta_text think_end;
                  reasoning = py_slice_to delta_text idx;
                  remaining = py_slice_from delta_text (idx + int (length think_end));
                  remaining = py_replace (py_replace remaining answer_start []) answer_end []
              in (self, Some \<lparr>reasoning_content = or_none reasoning,
                                content = or_none remaining\<rparr>))
           else (self, Some \<lparr>reasoning_content = Some delta_text, content = None\<rparr>)
         else if current_state self = Content then
           (let content = py_replace (py_replace delta_text answer_start []) answer_end []
            in if content \<noteq> [] then
                 (self, Some \<lparr>reasoning_content = None, content = Some content\<rparr>)
               else (self, None))
         else (self, None))"


section \<open>Driving the streaming parser\<close>

text \<open>
  The serving loop calls the streaming method once per delta, with the text received
  before the delta, the text including it, and the delta.  The token-id arguments are
  never read by the method; the loop below passes empty lists.  \<open>feed\<close> returns the
  parser after the last call and what each call returned, in order.
\<close>

fun feed :: "parser \<Rightarrow> string \<Rightarrow> string list \<Rightarrow> parser \<times> delta_message option list" where
  "feed self previous_text [] = (self, [])"
| "feed self previous_text (delta_text # deltas) =
     (let current_text = previous_text @ delta_text;
          r = extract_reasoning_content_streaming self previous_text current_text delta_text
                [] [] [];
          rs = feed (fst r) current_text deltas
      in (fst rs, snd r # snd rs))"

text \<open>The reasoning text and the content text a client assembles from the updates.\<close>

definition reasoning_of :: "delta_message option \<Rightarrow> string" where
  "reasoning_of m =
     (case m of None \<Rightarrow> [] | Some d \<Rightarrow> (case reasoning_content d of None \<Rightarrow> [] | Some r \<Rightarrow> r))"

definition content_of :: "delta_message option \<Rightarrow> string" where
  "content_of m =
     (case m of None \<Rightarrow> [] | Some d \<Rightarrow> (case content d of None \<Rightarrow> [] | Some c \<Rightarrow> c))"

definition reasoning_fragments :: "delta_message option list \<Rightarrow> string" where
  "reasoning_fragments ms = concat (map reasoning_of ms)"

definition content_fragments :: "delta_message option list \<Rightarrow> string" where
  "content_fragments ms = concat (map content_of ms)"

text \<open>
  Any sequence of calls, whatever their arguments: the parser after each call.
\<close>

type_synonym call = "string \<times> string \<times> string \<times> int list \<times> int list \<times> int list"

fun run_calls :: "parser \<Rightarrow> call list \<Rightarrow> parser list" where
  "run_calls self [] = []"
| "run_calls self ((previous_text, current_text, delta_text, pids, cids, dids) # calls) =
     (let self' = fst (extract_reasoning_content_streaming self previous_text current_text
                         delta_text pids cids dids)
      in self' # run_calls self' calls)"

text \<open>The order \<open>initial < thinking < content\<close>.\<close>

fun phase_rank :: "phase \<Rightarrow> nat" where
  "phase_rank Initial = 0"
| "phase_rank Thinking = 1"
| "phase_rank Content = 2"

text \<open>Removing the answer tags, as the parser does it: first every \<open><answer>\<close>, then every \<open></answer>\<close>.\<close>

definition strip_answer_tags :: "string \<Rightarrow> string" where
  "strip_answer_tags s = py_replace (py_replace s answer_start []) answer_end []"

text \<open>A marker whose first character occurs nowhere else in it cannot overlap itself.\<close>

definition own_head :: "string \<Rightarrow> bool" where
  "own_head sub = (sub \<noteq> [] \<and> hd sub \<notin> set (tl sub))"

text \<open>
  Text without any \<open><\<close> holds no marker and no part of one.
\<close>

definition plain :: "string \<Rightarrow> bool" where
  "plain s = (CHR ''<'' \<notin> set s)"

text \<open>The four markers.\<close>

definition markers :: "string set" where
  "markers = {think_start, think_end, answer_start, answer_end}"

text \<open>
  A text cut into deltas is described by pieces: a \<open>Mark\<close> is one occurrence of a marker
  that no delta boundary cuts, a \<open>Free\<close> piece is any other stretch of text.  The deltas
  are the texts of consecutive groups of pieces, so free text may be cut anywhere.
\<close>

datatype piece = Mark string | Free string

fun piece_text :: "piece \<Rightarrow> string" where
  "piece_text (Mark m) = m"
| "piece_text (Free s) = s"

definition text_of :: "piece list \<Rightarrow> string" where
  "text_of ps = concat (map piece_text ps)"

text \<open>Only whitespace; no answer tag inside.\<close>

definition blank :: "string \<Rightarrow> bool" where
  "blank s = (\<forall>c \<in> set s. isspace c)"

definition untagged :: "string \<Rightarrow> bool" where
  "untagged s = (\<not> sublist answer_start s \<and> \<not> sublist answer_end s)"

text \<open>
  An answer in tags: whitespace, \<open><answer>\<close>, an answer text with no tag inside, and
  then either nothing or \<open></answer>\<close> and whitespace.
\<close>

definition answer_pieces :: "piece list \<Rightarrow> bool" where
  "answer_pieces ps =
     (\<exists>ws aa qs. blank (concat ws) \<and> untagged (concat aa) \<and> blank (concat qs) \<and>
        (ps = map Free ws @ Mark answer_start # map Free aa
         \<or> ps = map Free ws @ Mark answer_start # map Free aa @ Mark answer_end # map Free qs))"

text \<open>What may follow \<open></think>\<close>: a text with no answer tag, or an answer in tags.\<close>

definition content_pieces :: "piece list \<Rightarrow> bool" where
  "content_pieces ps =
     ((\<exists>cs. ps = map Free cs \<and> untagged (concat cs)) \<or> answer_pieces ps)"

text \<open>
  The three kinds of text and split on which the two extractors are compared.

  \<open>plain_split\<close>: the text holds neither \<open><think>\<close> nor \<open><answer>\<close>; it is cut anywhere.

  \<open>answer_split\<close>: the text is an answer in tags and holds no \<open><think>\<close>; no tag is cut.

  \<open>think_split\<close>: after deltas of whitespace comes the delta with the first \<open><think>\<close>,
  uncut, whatever stands before it in that delta (\<open>pre\<close>); the reasoning \<open>rs\<close> follows,
  cut anywhere and with no \<open></think>\<close> before its end; then the text ends, or the first
  \<open></think>\<close> follows, uncut, and after it a text with no answer tag or an answer in
  tags, no tag cut.
\<close>

definition plain_split :: "string list \<Rightarrow> bool" where
  "plain_split deltas =
     (\<not> sublist think_start (concat deltas) \<and> \<not> sublist answer_start (concat deltas))"

definition answer_split :: "string list \<Rightarrow> bool" where
  "answer_split deltas =
     (\<exists>groups. deltas = map text_of groups \<and> answer_pieces (concat groups)
        \<and> \<not> sublist think_start (concat deltas))"

definition think_split :: "string list \<Rightarrow> bool" where
  "think_split deltas =
     (\<exists>gs0 pre g2 gs2 rs tail.
        deltas = map text_of (gs0 @ (Free pre # Mark think_start # g2) # gs2)
        \<and> blank (text_of (concat gs0))
        \<and> \<not> sublist think_start pre
        \<and> \<not> sublist think_end (pre @ think_start @ concat rs)
        \<and> g2 @ concat gs2 = map Free rs @ tail
        \<and> (tail = [] \<or> (\<exists>cps. tail = Mark think_end # cps \<and> content_pieces cps)))"

text \<open>
  No occurrence of \<open>m\<close> in any run of free text of the pieces (\<open>acc\<close> is the run so far).
\<close>

fun runs_free :: "string \<Rightarrow> string \<Rightarrow> piece list \<Rightarrow> bool" where
  "runs_free m acc [] = (\<not> sublist m acc)"
| "runs_free m acc (Free s # ps) = runs_free m (acc @ s) ps"
| "runs_free m acc (Mark t # ps) = (\<not> sublist m acc \<and> runs_free m [] ps)"

text \<open>
  Pieces on which removing the answer tags removes the \<open>Mark\<close> pieces and nothing else:
  no \<open><answer>\<close> in a run of free text, and no \<open></answer>\<close> in a run once the
  \<open><answer>\<close> marks are taken out.
\<close>

definition tag_safe :: "piece list \<Rightarrow> bool" where
  "tag_safe ps =
     (runs_free answer_start [] ps
      \<and> runs_free answer_end [] (filter (\<lambda>p. p \<noteq> Mark answer_start) ps)
      \<and> (\<forall>t. Mark t \<in> set ps \<longrightarrow> t \<in> markers))"

text \<open>
  The comparison of the two extractors on a list of deltas fed to \<open>self\<close>: the reasoning
  fragments of all updates, concatenated, then trimmed and taken as absent when empty,
  are the reasoning of the full-text extractor on the concatenated deltas; and the same
  for the content fragments and its content.
\<close>

definition streaming_agrees :: "parser \<Rightarrow> string list \<Rightarrow> bool" where
  "streaming_agrees self deltas =
     (or_none (py_strip (reasoning_fragments (snd (feed self [] deltas))))
        = fst (extract_reasoning_content self (concat deltas) ())
      \<and> or_none (py_strip (content_fragments (snd (feed self [] deltas))))
        = snd (extract_reasoning_content self (concat deltas) ()))"

text \<open>
  A tokenizer to run the token-level helpers on: one token per character, the id being
  the character's code.
\<close>

definition char_tokenizer :: tokenizer where
  "char_tokenizer =
     \<lparr>decode = (\<lambda>ids skip. map (\<lambda>i. char_of (nat i)) ids),
      encode = (\<lambda>text add. map (\<lambda>c. int (of_char c)) text)\<rparr>"


section \<open>Facts about the string primitives\<close>

lemma startswith_iff_prefix: "startswith s sub \<longleftrightarrow> prefix sub s"
  by (induction s sub rule: startswith.induct) auto

lemma find_idx_None_iff: "find_idx s sub = None \<longleftrightarrow> \<not> sublist sub s"
  by (induction s) (auto simp: startswith_iff_prefix sublist_Cons_right)

lemma py_in_iff_sublist: "py_in sub s \<longleftrightarrow> sublist sub s"
  by (simp add: py_in_def find_idx_None_iff)

lemma prefix_overlap:
  assumes "prefix sub (p @ m @ post)" and "m \<noteq> []" and "hd m \<notin> set (tl sub)" and "p \<noteq> []"
  shows "prefix sub p"
proof -
  from assms(1) have "prefix sub p \<or> (\<exists>us. sub = p @ us \<and> prefix us (m @ post))"
    by (simp only: prefix_append)
  then consider "prefix sub p" | us where "sub = p @ us" "prefix us (m @ post)"
    by blast
  then show ?thesis
  proof cases
    case 1
    then show ?thesis .
  next
    case 2
    show ?thesis
    proof (cases us)
      case Nil
      with 2 show ?thesis by simp
    next
      case (Cons u us')
      with 2(2) assms(2) have "u = hd m"
        by (cases m) simp_all
      with 2(1) Cons assms(4) have "hd m \<in> set (tl sub)"
        by (cases p) auto
      with assms(3) show ?thesis by simp
    qed
  qed
qed

lemma find_idx_first:
  assumes "own_head sub" and "\<not> sublist sub pre"
  shows "find_idx (pre @ sub @ post) sub = Some (length pre)"
  using assms(2)
proof (induction pre)
  case Nil
  from assms(1) show ?case
    by (cases sub) (simp_all add: own_head_def startswith_iff_prefix)
next
  case (Cons a pre)
  have "\<not> prefix sub (a # pre)"
    using Cons.prems prefix_imp_sublist by blast
  then have no: "\<not> prefix sub ((a # pre) @ sub @ post)"
    using prefix_overlap [of sub "a # pre" sub post] assms(1) by (auto simp: own_head_def)
  have "\<not> sublist sub pre"
    using Cons.prems by (auto simp: sublist_Cons_right)
  with Cons.IH have "find_idx (pre @ sub @ post) sub = Some (length pre)" .
  with no show ?case
    by (simp add: startswith_iff_prefix)
qed

lemma py_find_first:
  assumes "own_head sub" and "\<not> sublist sub pre"
  shows "py_find (pre @ sub @ post) sub = int (length pre)"
  by (simp add: py_find_def find_idx_first [OF assms])

lemma py_slice_to_pre: "py_slice_to (pre @ post) (int (length pre)) = pre"
  by (simp add: py_slice_to_def slice_bound_def)

lemma own_head_markers:
  "own_head think_start" "own_head think_end" "own_head answer_start" "own_head answer_end"
  by (simp_all add: own_head_def think_start_def think_end_def answer_start_def answer_end_def)

lemma length_markers:
  "length think_start = 7" "length think_end = 8" "length answer_start = 8"
  "length answer_end = 9"
  by (simp_all add: think_start_def think_end_def answer_start_def answer_end_def)

lemma py_split1_first:
  assumes "own_head sep" and "\<not> sublist sep pre"
  shows "py_split1 (pre @ sep @ post) sep = [pre, post]"
  by (simp add: py_split1_def find_idx_first [OF assms])

lemma py_slice_at:
  "i = int (length pre) \<Longrightarrow> j = int (length pre + length mid)
     \<Longrightarrow> py_slice (pre @ mid @ post) i j = mid"
  by (simp add: py_slice_def slice_bound_def)

lemma py_slice_from_at: "i = int (length pre) \<Longrightarrow> py_slice_from (pre @ post) i = post"
  by (simp add: py_slice_from_def slice_bound_def)

lemma find_idx_ge:
  assumes "m \<noteq> []" and "hd m \<notin> set (tl sub)" and "\<not> sublist sub pre"
    and "find_idx (pre @ m @ post) sub = Some i"
  shows "length pre \<le> i"
  using assms(3,4)
proof (induction pre arbitrary: i)
  case Nil
  show ?case by simp
next
  case (Cons a pre)
  have "\<not> prefix sub (a # pre)"
    using Cons.prems(1) prefix_imp_sublist by blast
  then have no: "\<not> prefix sub ((a # pre) @ m @ post)"
    using prefix_overlap [of sub "a # pre" m post] assms(1,2) by auto
  have ns: "\<not> sublist sub pre"
    using Cons.prems(1) by (auto simp: sublist_Cons_right)
  from no Cons.prems(2) obtain j where j: "find_idx (pre @ m @ post) sub = Some j" "i = Suc j"
    by (auto simp: startswith_iff_prefix)
  from Cons.IH [OF ns j(1)] j(2) show ?case by simp
qed


section \<open>Markers in a text\<close>

lemma marker_facts:
  assumes "m \<in> markers"
  shows "m \<noteq> []" and "hd m = CHR ''<''" and "plain (tl m)" and "own_head m" and "\<not> plain m"
  using assms
  by (auto simp: markers_def plain_def own_head_def think_start_def think_end_def
      answer_start_def answer_end_def)

lemma marker_prefix:
  assumes "m \<in> markers" and "t \<in> markers"
  shows "prefix m (t @ rest) \<longleftrightarrow> m = t"
  using assms
  by (auto simp: markers_def think_start_def think_end_def answer_start_def answer_end_def)

lemma plain_no_prefix:
  assumes "plain (c # s)" and "m \<in> markers"
  shows "\<not> prefix m (c # s @ rest)"
proof -
  from marker_facts(1,2) [OF assms(2)] obtain m' where "m = CHR ''<'' # m'"
    by (cases m) auto
  with assms(1) show ?thesis by (auto simp: plain_def)
qed

lemma sublist_plain_append:
  assumes "plain s" and "m \<in> markers"
  shows "sublist m (s @ rest) \<longleftrightarrow> sublist m rest"
  using assms(1)
proof (induction s)
  case Nil
  show ?case by simp
next
  case (Cons c s)
  then have "plain s" by (simp add: plain_def)
  with Cons.IH plain_no_prefix [OF Cons.prems assms(2)] show ?case
    by (simp add: sublist_Cons_right)
qed

lemma sublist_marker_append:
  assumes "m \<in> markers" and "t \<in> markers"
  shows "sublist m (t @ rest) \<longleftrightarrow> m = t \<or> sublist m rest"
proof -
  from marker_facts(1) [OF assms(2)] obtain c t' where t: "t = c # t'"
    by (cases t) auto
  with marker_facts(3) [OF assms(2)] have "plain t'" by simp
  then have "sublist m (t' @ rest) \<longleftrightarrow> sublist m rest"
    using assms(1) by (rule sublist_plain_append)
  moreover have "prefix m (c # t' @ rest) \<longleftrightarrow> m = t"
    using marker_prefix [OF assms, of rest] t by simp
  ultimately show ?thesis
    by (simp add: t sublist_Cons_right)
qed

lemma replace_scan_plain:
  assumes "plain s" and "m \<in> markers"
  shows "replace_scan (s @ rest) m new = s @ replace_scan rest m new"
  using assms(1)
proof (induction s)
  case Nil
  show ?case by simp
next
  case (Cons c s)
  then have "plain s" by (simp add: plain_def)
  with Cons.IH plain_no_prefix [OF Cons.prems assms(2)] show ?case
    by (simp add: startswith_iff_prefix)
qed

lemma replace_scan_same:
  assumes "m \<in> markers"
  shows "replace_scan (m @ rest) m [] = replace_scan rest m []"
proof -
  from marker_facts(1) [OF assms] obtain c m' where m: "m = c # m'"
    by (cases m) auto
  have "startswith (c # m' @ rest) (c # m')"
    by (simp add: startswith_iff_prefix)
  then show ?thesis by (simp add: m)
qed

lemma replace_scan_other:
  assumes "m \<in> markers" and "t \<in> markers" and "t \<noteq> m"
  shows "replace_scan (t @ rest) m new = t @ replace_scan rest m new"
proof -
  from marker_facts(1) [OF assms(2)] obtain c t' where t: "t = c # t'"
    by (cases t) auto
  with marker_facts(3) [OF assms(2)] have "plain t'" by simp
  then have "replace_scan (t' @ rest) m new = t' @ replace_scan rest m new"
    using assms(1) by (rule replace_scan_plain)
  moreover have "\<not> prefix m (c # t' @ rest)"
    using marker_prefix [OF assms(1,2), of rest] t assms(3) by auto
  ultimately show ?thesis
    by (simp add: t startswith_iff_prefix)
qed

section \<open>The full-text extractor\<close>

text \<open>
  Claim C7.  Whatever the text, neither component of the pair that
  \<open>extract_reasoning_content\<close> returns is the empty string: a reasoning or an answer that
  is empty after trimming is returned as \<open>None\<close>.
\<close>

theorem extract_reasoning_content_never_empty:
  "fst (extract_reasoning_content self model_output request) \<noteq> Some []
   \<and> snd (extract_reasoning_content self model_output request) \<noteq> Some []"
  by (simp add: extract_reasoning_content_def Let_def split: prod.splits)


section \<open>The token-level helpers\<close>

text \<open>
  Claim C8.  \<open>is_reasoning_end\<close> holds exactly when \<open>think_end\<close> occurs as a substring of
  the text decoded from the ids with special tokens skipped, and its result does not
  depend on the streaming fields of the parser (it returns a truth value only, so it
  changes none of them either).
\<close>

theorem is_reasoning_end_iff:
  "(is_reasoning_end self input_ids
      \<longleftrightarrow> sublist think_end (decode (model_tokenizer self) input_ids True))
   \<and> is_reasoning_end (self\<lparr>current_state := s, buffer := b, thinking_complete := t\<rparr>) input_ids
       = is_reasoning_end self input_ids"
  by (simp add: is_reasoning_end_def py_in_iff_sublist)

text \<open>
  Claim C9.  With \<open>text\<close> the decoded ids: if \<open>think_end\<close> does not occur in \<open>text\<close>,
  \<open>extract_content_ids\<close> returns the empty list; if \<open>text\<close> is \<open>pre\<close>, \<open>think_end\<close>,
  \<open>post\<close> with no \<open>think_end\<close> inside \<open>pre\<close> (so \<open>post\<close> is the text after the first
  occurrence), it returns the encoding, without special tokens, of \<open>post\<close> with the
  answer tags removed.
\<close>

theorem extract_content_ids_spec:
  assumes "decode (model_tokenizer self) input_ids True = text"
  shows "(\<not> sublist think_end text \<longrightarrow> extract_content_ids self input_ids = [])
       \<and> (text = pre @ think_end @ post \<and> \<not> sublist think_end pre \<longrightarrow>
            extract_content_ids self input_ids
              = encode (model_tokenizer self) (strip_answer_tags post) False)"
proof (intro conjI impI)
  assume "\<not> sublist think_end text"
  with assms show "extract_content_ids self input_ids = []"
    by (simp add: extract_content_ids_def py_in_iff_sublist)
next
  assume h: "text = pre @ think_end @ post \<and> \<not> sublist think_end pre"
  then have "py_split1 text think_end = [pre, post]"
    using py_split1_first [OF own_head_markers(2)] by simp
  moreover from h have "sublist think_end text" by simp
  ultimately show "extract_content_ids self input_ids
      = encode (model_tokenizer self) (strip_answer_tags post) False"
    using assms by (simp add: extract_content_ids_def py_in_iff_sublist strip_answer_tags_def)
qed

text \<open>
  The ids of "foo</think>bar" give the ids of "bar"; the ids of "foo" give nothing.
\<close>

theorem extract_content_ids_spec_witness:
  "extract_content_ids (init char_tokenizer)
       [102, 111, 111, 60, 47, 116, 104, 105, 110, 107, 62, 98, 97, 114] = [98, 97, 114]
   \<and> extract_content_ids (init char_tokenizer) [102, 111, 111] = []"
proof -
  let ?ids = "[102, 111, 111, 60, 47, 116, 104, 105, 110, 107, 62, 98, 97, 114] :: int list"
  have d: "decode (model_tokenizer (init char_tokenizer)) ?ids True = ''foo'' @ think_end @ ''bar''"
    by code_simp
  have d': "decode (model_tokenizer (init char_tokenizer)) [102, 111, 111] True = ''foo''"
    by code_simp
  have n: "\<not> sublist think_end ''foo''"
    by code_simp
  have e: "encode (model_tokenizer (init char_tokenizer)) (strip_answer_tags ''bar'') False
             = [98, 97, 114]"
    by code_simp
  from extract_content_ids_spec [OF d, of "''foo''" "''bar''"] n e
  have "extract_content_ids (init char_tokenizer) ?ids = [98, 97, 114]" by simp
  moreover from extract_content_ids_spec [OF d', of "''foo''" "''bar''"] n
  have "extract_content_ids (init char_tokenizer) [102, 111, 111] = []" by simp
  ultimately show ?thesis by simp
qed


section \<open>One call of the streaming method\<close>

text \<open>
  The method reads neither the previous text nor any of the token-id arguments.
\<close>

lemma streaming_ignores_ids:
  "extract_reasoning_content_streaming self previous_text current_text delta_text pids cids dids
     = extract_reasoning_content_streaming self [] current_text delta_text [] [] []"
  by (simp add: extract_reasoning_content_streaming_def)

lemma initial_whole_block_step:
  assumes "current_state self = Initial"
    and "current_text = previous_text @ delta_text"
    and "delta_text = pre @ think_start @ mid @ think_end @ post"
    and "\<not> sublist think_start pre"
    and "\<not> sublist think_end (pre @ think_start @ mid)"
  shows "extract_reasoning_content_streaming self previous_text current_text delta_text
           pids cids dids
         = (self\<lparr>buffer := current_text, current_state := Content, thinking_complete := True\<rparr>,
            Some \<lparr>reasoning_content = or_none mid,
                  content = or_none (strip_answer_tags post)\<rparr>)"
proof -
  define si where "si = int (length pre)"
  define ei where "ei = int (length (pre @ think_start @ mid))"
  have ic: "sublist think_start current_text"
    unfolding assms(2,3) sublist_def by (metis append.assoc)
  have ie: "sublist think_end delta_text"
    unfolding assms(3) sublist_def by (metis append.assoc)
  have fs: "py_find delta_text think_start = si"
    using py_find_first [OF own_head_markers(1) assms(4)] assms(3) by (simp add: si_def)
  have fe: "py_find delta_text think_end = ei"
    using py_find_first [OF own_head_markers(2) assms(5), of post] assms(3)
    by (simp add: ei_def)
  have lt: "si < ei"
    by (simp add: si_def ei_def length_markers)
  have a: "py_slice delta_text (si + int (length think_start)) ei = mid"
    unfolding assms(3)
    by (rule py_slice_at [of _ "pre @ think_start" _ mid "think_end @ post", simplified])
      (simp_all add: si_def ei_def)
  have b: "py_slice_from delta_text (ei + int (length think_end)) = post"
    unfolding assms(3)
    by (rule py_slice_from_at [of _ "pre @ think_start @ mid @ think_end" post, simplified])
      (simp add: ei_def)
  show ?thesis
    using assms(1) ic ie lt
    by (simp add: extract_reasoning_content_streaming_def Let_def py_in_iff_sublist fs fe a b
        strip_answer_tags_def)
qed

lemma thinking_end_step:
  assumes "current_state self = Thinking"
    and "delta_text = mid @ think_end @ post"
    and "\<not> sublist think_end mid"
  shows "extract_reasoning_content_streaming self previous_text current_text delta_text
           pids cids dids
         = (self\<lparr>buffer := current_text, current_state := Content, thinking_complete := True\<rparr>,
            Some \<lparr>reasoning_content = or_none mid,
                  content = or_none (strip_answer_tags post)\<rparr>)"
proof -
  have i: "sublist think_end delta_text"
    using assms(2) by simp
  have f: "py_find delta_text think_end = int (length mid)"
    using py_find_first [OF own_head_markers(2) assms(3)] assms(2) by simp
  have a: "py_slice_to delta_text (int (length mid)) = mid"
    using py_slice_to_pre [of mid] assms(2) by simp
  have b: "py_slice_from delta_text (int (length mid) + int (length think_end)) = post"
    unfolding assms(2) by (rule py_slice_from_at [of _ "mid @ think_end" post, simplified]) simp
  show ?thesis
    using assms(1) i
    by (simp add: extract_reasoning_content_streaming_def Let_def py_in_iff_sublist f a b
        strip_answer_tags_def)
qed

text \<open>
  Claim C3.  In state \<open>initial\<close>, called as the serving loop calls it (the current text is
  the previous text followed by the delta), on a delta that is \<open>pre\<close>, \<open>think_start\<close>,
  \<open>mid\<close>, \<open>think_end\<close>, \<open>post\<close> where this \<open>think_start\<close> and this \<open>think_end\<close> are the
  first occurrences in the delta: the call returns one update whose reasoning is \<open>mid\<close>
  (absent if empty) and whose content is \<open>post\<close> with the answer tags removed (absent if
  empty); the state becomes \<open>content\<close> and \<open>thinking_complete\<close> becomes true.
\<close>

theorem streaming_initial_whole_block:
  assumes "current_state self = Initial"
    and "current_text = previous_text @ delta_text"
    and "delta_text = pre @ think_start @ mid @ think_end @ post"
    and "\<not> sublist think_start pre"
    and "\<not> sublist think_end (pre @ think_start @ mid)"
  shows "extract_reasoning_content_streaming self previous_text current_text delta_text
           pids cids dids
         = (self\<lparr>buffer := current_text, current_state := Content, thinking_complete := True\<rparr>,
            Some \<lparr>reasoning_content = or_none mid,
                  content = or_none (strip_answer_tags post)\<rparr>)"
  using assms by (rule initial_whole_block_step)

text \<open>The delta "<think>abc</think>answer" gives reasoning "abc" and content "answer".\<close>

theorem streaming_initial_whole_block_witness:
  "extract_reasoning_content_streaming (init char_tokenizer) [] ''<think>abc</think>answer''
       ''<think>abc</think>answer'' [] [] []
     = ((init char_tokenizer)\<lparr>buffer := ''<think>abc</think>answer'', current_state := Content,
           thinking_complete := True\<rparr>,
        Some \<lparr>reasoning_content = Some ''abc'', content = Some ''answer''\<rparr>)"
proof -
  have s: "current_state (init char_tokenizer) = Initial" by (simp add: init_def)
  have d: "''<think>abc</think>answer'' = [] @ think_start @ ''abc'' @ think_end @ ''answer''"
    by (simp add: think_start_def think_end_def)
  have n1: "\<not> sublist think_start []" by code_simp
  have n2: "\<not> sublist think_end ([] @ think_start @ ''abc'')" by code_simp
  have t: "strip_answer_tags ''answer'' = ''answer''" by code_simp
  show ?thesis
    using streaming_initial_whole_block [OF s _ d n1 n2, of "''<think>abc</think>answer''" "[]"
        "[]" "[]" "[]"]
    by (simp add: t or_none_def)
qed

text \<open>
  Claim C4, as the code has it.  In state \<open>thinking\<close>, on a delta that is \<open>mid\<close>,
  \<open>think_end\<close>, \<open>post\<close> with no \<open>think_end\<close> inside \<open>mid\<close>: the call returns an update
  whose reasoning is \<open>mid\<close> and whose content is \<open>post\<close> with the answer tags removed,
  each absent if empty; the state becomes \<open>content\<close> and \<open>thinking_complete\<close> becomes
  true.  (Both fields are absent when \<open>mid\<close> and the cleaned \<open>post\<close> are both empty.)
\<close>

theorem streaming_thinking_end:
  assumes "current_state self = Thinking"
    and "delta_text = mid @ think_end @ post"
    and "\<not> sublist think_end mid"
  shows "extract_reasoning_content_streaming self previous_text current_text delta_text
           pids cids dids
         = (self\<lparr>buffer := current_text, current_state := Content, thinking_complete := True\<rparr>,
            Some \<lparr>reasoning_content = or_none mid,
                  content = or_none (strip_answer_tags post)\<rparr>)"
  using assms by (rule thinking_end_step)

theorem streaming_thinking_end_witness:
  "extract_reasoning_content_streaming ((init char_tokenizer)\<lparr>current_state := Thinking\<rparr>)
       ''<think>ab'' ''<think>abc</think><answer>d'' ''c</think><answer>d'' [] [] []
     = ((init char_tokenizer)\<lparr>current_state := Thinking, buffer := ''<think>abc</think><answer>d'',
           current_state := Content, thinking_complete := True\<rparr>,
        Some \<lparr>reasoning_content = Some ''c'', content = Some ''d''\<rparr>)"
proof -
  have n: "\<not> sublist think_end ''c''" by code_simp
  have d: "''c</think><answer>d'' = ''c'' @ think_end @ ''<answer>d''"
    by (simp add: think_end_def)
  have t: "strip_answer_tags ''<answer>d'' = ''d''" by code_simp
  show ?thesis
    using streaming_thinking_end [of "(init char_tokenizer)\<lparr>current_state := Thinking\<rparr>"
        "''c</think><answer>d''" "''c''" "''<answer>d''" "''<think>ab''"
        "''<think>abc</think><answer>d''" "[]" "[]" "[]", OF _ d n]
    by (simp add: t or_none_def)
qed

text \<open>
  The claim's "never both absent" fails: the delta "</think>" alone, in state
  \<open>thinking\<close>, returns an update with neither field.
\<close>

theorem streaming_thinking_end_both_absent:
  "snd (extract_reasoning_content_streaming ((init char_tokenizer)\<lparr>current_state := Thinking\<rparr>)
         ''<think>abc'' ''<think>abc</think>'' ''</think>'' [] [] [])
     = Some \<lparr>reasoning_content = None, content = None\<rparr>"
  by code_simp

text \<open>
  Claim C5.  In state \<open>initial\<close> (with \<open>thinking_complete\<close> still false, as it is until
  the state is \<open>content\<close>): the call takes the thinking branch, leaving the state
  \<open>thinking\<close> or, when the whole block closed in the same call, \<open>thinking_complete\<close>
  true, exactly when \<open>think_start\<close> occurs in the current text, whether or not one delta
  holds the whole marker.  When it occurs there and the delta holds neither
  \<open>think_start\<close> nor \<open>think_end\<close>, the whole delta is returned as reasoning, unchanged.
\<close>

theorem streaming_initial_trigger:
  assumes "current_state self = Initial"
  shows "(\<not> thinking_complete self \<longrightarrow>
            ((current_state (fst (extract_reasoning_content_streaming self previous_text
                 current_text delta_text pids cids dids)) = Thinking
              \<or> thinking_complete (fst (extract_reasoning_content_streaming self previous_text
                 current_text delta_text pids cids dids)))
             \<longleftrightarrow> sublist think_start current_text))
       \<and> (sublist think_start current_text \<and> \<not> sublist think_start delta_text
            \<and> \<not> sublist think_end delta_text \<longrightarrow>
            extract_reasoning_content_streaming self previous_text current_text delta_text
                pids cids dids
              = (self\<lparr>buffer := current_text, current_state := Thinking\<rparr>,
                 Some \<lparr>reasoning_content = Some delta_text, content = None\<rparr>))"
  using assms
  by (simp add: extract_reasoning_content_streaming_def Let_def py_in_iff_sublist)

text \<open>
  The marker split as "<th", "ink>": the first call stays in \<open>initial\<close>; the second sees
  the marker in the current text, moves to \<open>thinking\<close> and returns "ink>" as reasoning.
\<close>

theorem streaming_initial_trigger_witness:
  "extract_reasoning_content_streaming (init char_tokenizer) [] ''<th'' ''<th'' [] [] []
     = ((init char_tokenizer)\<lparr>buffer := ''<th''\<rparr>,
        Some \<lparr>reasoning_content = None, content = Some ''<th''\<rparr>)
   \<and> extract_reasoning_content_streaming ((init char_tokenizer)\<lparr>buffer := ''<th''\<rparr>)
         ''<th'' ''<think>'' ''ink>'' [] [] []
     = ((init char_tokenizer)\<lparr>buffer := ''<think>'', current_state := Thinking\<rparr>,
        Some \<lparr>reasoning_content = Some ''ink>'', content = None\<rparr>)"
proof -
  have s: "current_state ((init char_tokenizer)\<lparr>buffer := ''<th''\<rparr>) = Initial"
    by (simp add: init_def)
  have h: "sublist think_start ''<think>'' \<and> \<not> sublist think_start ''ink>''
             \<and> \<not> sublist think_end ''ink>''"
    by code_simp
  have n: "\<not> sublist think_start ''<th''" "\<not> sublist answer_start ''<th''"
    by code_simp+
  have 1: "extract_reasoning_content_streaming (init char_tokenizer) [] ''<th'' ''<th'' [] [] []
     = ((init char_tokenizer)\<lparr>buffer := ''<th''\<rparr>,
        Some \<lparr>reasoning_content = None, content = Some ''<th''\<rparr>)"
    using n by (simp add: extract_reasoning_content_streaming_def Let_def py_in_iff_sublist init_def)
  from streaming_initial_trigger [OF s, where previous_text = "''<th''"
      and current_text = "''<think>''" and delta_text = "''ink>''" and pids = "[]"
      and cids = "[]" and dids = "[]"] h
  have "extract_reasoning_content_streaming ((init char_tokenizer)\<lparr>buffer := ''<th''\<rparr>)
         ''<th'' ''<think>'' ''ink>'' [] [] []
     = ((init char_tokenizer)\<lparr>buffer := ''<think>'', current_state := Thinking\<rparr>,
        Some \<lparr>reasoning_content = Some ''ink>'', content = None\<rparr>)"
    by simp
  with 1 show ?thesis by simp
qed

lemma end_before_start_step:
  assumes "current_state self = Initial"
    and "sublist think_start current_text"
    and "delta_text = pre @ think_end @ post"
    and "\<not> sublist think_end pre"
    and "\<not> sublist think_start pre"
    and "sublist think_start delta_text"
  shows "extract_reasoning_content_streaming self previous_text current_text delta_text
           pids cids dids
         = (self\<lparr>buffer := current_text, current_state := Thinking\<rparr>, None)"
proof -
  have ie: "sublist think_end delta_text"
    using assms(3) by simp
  have fe: "py_find delta_text think_end = int (length pre)"
    using py_find_first [OF own_head_markers(2) assms(4)] assms(3) by simp
  from assms(6) obtain i where i: "find_idx delta_text think_start = Some i"
    using find_idx_None_iff [of delta_text think_start] by auto
  have "length pre \<le> i"
  proof (rule find_idx_ge [of think_end think_start pre post i])
    show "think_end \<noteq> []" by (simp add: think_end_def)
    show "hd think_end \<notin> set (tl think_start)" by (simp add: think_end_def think_start_def)
    show "\<not> sublist think_start pre" by (rule assms(5))
    show "find_idx (pre @ think_end @ post) think_start = Some i" using i assms(3) by simp
  qed
  then have ge: "\<not> py_find delta_text think_start < int (length pre)"
    using i by (simp add: py_find_def)
  show ?thesis
    using assms(1,2) ie ge
    by (simp add: extract_reasoning_content_streaming_def Let_def py_in_iff_sublist fe)
qed

lemma step_past_initial:
  assumes "current_state self \<noteq> Initial" and "current_state other = current_state self"
  shows "snd (extract_reasoning_content_streaming self p c d ia ib ic)
           = snd (extract_reasoning_content_streaming other p' c' d ja jb jc)"
    and "current_state (fst (extract_reasoning_content_streaming self p c d ia ib ic))
           = current_state (fst (extract_reasoning_content_streaming other p' c' d ja jb jc))"
    and "current_state (fst (extract_reasoning_content_streaming self p c d ia ib ic)) \<noteq> Initial"
  using assms
  by (cases "current_state self";
      simp add: extract_reasoning_content_streaming_def Let_def)+

lemma feed_past_initial:
  assumes "current_state self \<noteq> Initial" and "current_state other = current_state self"
  shows "snd (feed self prev ds) = snd (feed other prev' ds)"
  using assms
proof (induction ds arbitrary: self other prev prev')
  case Nil
  show ?case by simp
next
  case (Cons d ds)
  let ?r = "extract_reasoning_content_streaming self prev (prev @ d) d [] [] []"
  let ?r' = "extract_reasoning_content_streaming other prev' (prev' @ d) d [] [] []"
  have 1: "snd ?r = snd ?r'"
    using Cons.prems by (rule step_past_initial(1))
  have 2: "current_state (fst ?r) = current_state (fst ?r')"
    using Cons.prems by (rule step_past_initial(2))
  have 3: "current_state (fst ?r) \<noteq> Initial"
    using Cons.prems by (rule step_past_initial(3))
  from Cons.IH [OF 3 2 [symmetric], of "prev @ d" "prev' @ d"] 1 show ?case
    by (simp add: Let_def)
qed

text \<open>
  Claim C10.  In state \<open>initial\<close>, on a delta in which \<open>think_start\<close> occurs and that is
  \<open>pre\<close>, \<open>think_end\<close>, \<open>post\<close> with neither marker inside \<open>pre\<close> (the first \<open>think_end\<close>
  is not after the first \<open>think_start\<close>): if the current text contains \<open>think_start\<close>, the
  call sets the state to \<open>thinking\<close> and returns no update.  Fed by the serving loop, this
  delta gives \<open>None\<close>, and the updates of all later calls are those which any parser in
  state \<open>thinking\<close> returns on the later deltas alone, whatever text it has seen before:
  they do not depend on this delta, so no call emits anything of it.
\<close>

theorem streaming_initial_end_before_start:
  assumes "current_state self = Initial"
    and "delta_text = pre @ think_end @ post"
    and "\<not> sublist think_end pre"
    and "\<not> sublist think_start pre"
    and "sublist think_start delta_text"
  shows "(sublist think_start current_text \<longrightarrow>
            extract_reasoning_content_streaming self previous_text current_text delta_text
                pids cids dids
              = (self\<lparr>buffer := current_text, current_state := Thinking\<rparr>, None))
       \<and> (current_state other = Thinking \<longrightarrow>
            snd (feed self previous_text (delta_text # deltas))
              = None # snd (feed other other_text deltas))"
proof (intro conjI impI)
  assume "sublist think_start current_text"
  then show "extract_reasoning_content_streaming self previous_text current_text delta_text
                pids cids dids
              = (self\<lparr>buffer := current_text, current_state := Thinking\<rparr>, None)"
    using assms by (intro end_before_start_step)
next
  assume o: "current_state other = Thinking"
  let ?s = "self\<lparr>buffer := previous_text @ delta_text, current_state := Thinking\<rparr>"
  from assms(5) have "sublist think_start (previous_text @ delta_text)"
    unfolding sublist_def by (metis append.assoc)
  then have "extract_reasoning_content_streaming self previous_text
        (previous_text @ delta_text) delta_text [] [] [] = (?s, None)"
    using assms by (intro end_before_start_step)
  then have "snd (feed self previous_text (delta_text # deltas))
      = None # snd (feed ?s (previous_text @ delta_text) deltas)"
    by (simp add: Let_def)
  moreover have "snd (feed ?s (previous_text @ delta_text) deltas)
      = snd (feed other other_text deltas)"
    by (rule feed_past_initial) (simp_all add: o)
  ultimately show "snd (feed self previous_text (delta_text # deltas))
      = None # snd (feed other other_text deltas)"
    by simp
qed

text \<open>The delta "</think><think>" returns nothing and leaves the state \<open>thinking\<close>.\<close>

theorem streaming_initial_end_before_start_witness:
  "extract_reasoning_content_streaming (init char_tokenizer) [] ''</think><think>''
       ''</think><think>'' [] [] []
     = ((init char_tokenizer)\<lparr>buffer := ''</think><think>'', current_state := Thinking\<rparr>, None)
   \<and> snd (feed (init char_tokenizer) [] [''</think><think>'', ''x''])
     = [None, Some \<lparr>reasoning_content = Some ''x'', content = None\<rparr>]"
proof -
  let ?other = "(init char_tokenizer)\<lparr>current_state := Thinking\<rparr>"
  have s: "current_state (init char_tokenizer) = Initial"
    by (simp add: init_def)
  have d: "''</think><think>'' = [] @ think_end @ ''<think>''"
    by (simp add: think_end_def)
  have n: "\<not> sublist think_end []" "\<not> sublist think_start []"
    by code_simp+
  have i: "sublist think_start ''</think><think>''"
    by code_simp
  have o: "current_state ?other = Thinking"
    by simp
  have r: "snd (feed ?other [] [''x''])
             = [Some \<lparr>reasoning_content = Some ''x'', content = None\<rparr>]"
    by code_simp
  note t = streaming_initial_end_before_start [OF s d n i, where previous_text = "[]"
      and current_text = "''</think><think>''" and pids = "[]" and cids = "[]" and dids = "[]"
      and deltas = "[''x'']" and other = ?other and other_text = "[]"]
  from t i have 1: "extract_reasoning_content_streaming (init char_tokenizer) []
       ''</think><think>'' ''</think><think>'' [] [] []
     = ((init char_tokenizer)\<lparr>buffer := ''</think><think>'', current_state := Thinking\<rparr>, None)"
    by blast
  from t o have 2: "snd (feed (init char_tokenizer) [] [''</think><think>'', ''x''])
      = None # snd (feed ?other [] [''x''])"
    by blast
  have 3: "snd (feed (init char_tokenizer) [] [''</think><think>'', ''x''])
     = [None, Some \<lparr>reasoning_content = Some ''x'', content = None\<rparr>]"
    by (simp only: 2 r)
  from 1 3 show ?thesis by (rule conjI)
qed


section \<open>Sequences of calls\<close>

lemma step_rank:
  "phase_rank (current_state self)
     \<le> phase_rank (current_state (fst (extract_reasoning_content_streaming self p c d pi ci di)))"
  by (cases "current_state self")
    (simp_all add: extract_reasoning_content_streaming_def Let_def)

lemma step_content:
  "current_state self = Content
     \<Longrightarrow> current_state (fst (extract_reasoning_content_streaming self p c d pi ci di)) = Content"
  by (simp add: extract_reasoning_content_streaming_def Let_def)

lemma run_calls_rank:
  "s \<in> set (run_calls self calls)
     \<Longrightarrow> phase_rank (current_state self) \<le> phase_rank (current_state s)"
proof (induction calls arbitrary: self)
  case Nil
  then show ?case by simp
next
  case (Cons c calls)
  obtain p ct d pi ci di where c: "c = (p, ct, d, pi, ci, di)"
    by (cases c)
  let ?s1 = "fst (extract_reasoning_content_streaming self p ct d pi ci di)"
  from Cons.prems c have "s = ?s1 \<or> s \<in> set (run_calls ?s1 calls)"
    by (simp add: Let_def)
  then show ?case
  proof
    assume "s = ?s1"
    then show ?thesis using step_rank by simp
  next
    assume "s \<in> set (run_calls ?s1 calls)"
    from Cons.IH [OF this] step_rank [of self p ct d pi ci di] show ?thesis
      by (rule_tac order_trans)
  qed
qed

lemma run_calls_sorted:
  "sorted (map (\<lambda>s. phase_rank (current_state s)) (self # run_calls self calls))"
proof (induction calls arbitrary: self)
  case Nil
  show ?case by simp
next
  case (Cons c calls)
  obtain p ct d pi ci di where c: "c = (p, ct, d, pi, ci, di)"
    by (cases c)
  let ?s1 = "fst (extract_reasoning_content_streaming self p ct d pi ci di)"
  have "\<forall>s \<in> set (run_calls self (c # calls)).
          phase_rank (current_state self) \<le> phase_rank (current_state s)"
    using run_calls_rank by blast
  moreover have "sorted (map (\<lambda>s. phase_rank (current_state s)) (run_calls self (c # calls)))"
    using Cons.IH [of ?s1] c by (simp add: Let_def)
  ultimately show ?case by simp
qed

lemma run_calls_content:
  "current_state self = Content \<Longrightarrow> s \<in> set (run_calls self calls)
     \<Longrightarrow> current_state s = Content"
proof (induction calls arbitrary: self)
  case Nil
  then show ?case by simp
next
  case (Cons c calls)
  obtain p ct d pi ci di where c: "c = (p, ct, d, pi, ci, di)"
    by (cases c)
  let ?s1 = "fst (extract_reasoning_content_streaming self p ct d pi ci di)"
  have s1: "current_state ?s1 = Content"
    using Cons.prems(1) by (rule step_content)
  from Cons.prems(2) c have "s = ?s1 \<or> s \<in> set (run_calls ?s1 calls)"
    by (simp add: Let_def)
  with s1 Cons.IH [OF s1] show ?case by blast
qed

text \<open>
  Claim C6.  Along any sequence of calls on one parser the state never decreases in the
  order \<open>initial < thinking < content\<close>, and once it is \<open>content\<close> it stays \<open>content\<close>.
\<close>

theorem state_only_moves_forward:
  "sorted (map (\<lambda>s. phase_rank (current_state s)) (self # run_calls self calls))
   \<and> (current_state self = Content
        \<longrightarrow> (\<forall>s \<in> set (run_calls self calls). current_state s = Content))"
  using run_calls_sorted run_calls_content by blast

theorem state_only_moves_forward_witness:
  "map current_state (run_calls (init char_tokenizer)
       [([], ''<think>'', ''<think>'', [], [], []),
        (''<think>'', ''<think>a</think>'', ''a</think>'', [], [], []),
        (''<think>a</think>'', ''<think>a</think>b'', ''b'', [], [], [])])
     = [Thinking, Content, Content]
   \<and> sorted (map (\<lambda>s. phase_rank (current_state s)) (init char_tokenizer #
       run_calls (init char_tokenizer)
       [([], ''<think>'', ''<think>'', [], [], []),
        (''<think>'', ''<think>a</think>'', ''a</think>'', [], [], []),
        (''<think>a</think>'', ''<think>a</think>b'', ''b'', [], [], [])]))"
proof -
  let ?calls = "[([], ''<think>'', ''<think>'', [], [], []),
        (''<think>'', ''<think>a</think>'', ''a</think>'', [], [], []),
        (''<think>a</think>'', ''<think>a</think>b'', ''b'', [], [], [])] :: call list"
  have "map current_state (run_calls (init char_tokenizer) ?calls) = [Thinking, Content, Content]"
    by code_simp
  with state_only_moves_forward [of "init char_tokenizer" ?calls] show ?thesis
    by blast
qed


section \<open>The full-text extractor on a closed think block\<close>

lemma between_first:
  assumes "s = pre @ a @ mid @ b @ post"
    and "own_head a" and "own_head b"
    and "\<not> sublist a pre" and "\<not> sublist b (pre @ a @ mid)"
  shows "sublist a s" and "sublist b s"
    and "py_slice s (py_find s a + int (length a)) (py_find s b) = mid"
    and "py_slice_from s (py_find s b + int (length b)) = post"
proof -
  show "sublist a s"
    unfolding assms(1) by simp
  show "sublist b s"
    unfolding assms(1) sublist_def by (metis append.assoc)
  have fa: "py_find s a = int (length pre)"
    using py_find_first [OF assms(2,4)] assms(1) by simp
  have fb: "py_find s b = int (length (pre @ a @ mid))"
    using py_find_first [OF assms(3,5), of post] assms(1) by simp
  show "py_slice s (py_find s a + int (length a)) (py_find s b) = mid"
    unfolding fa fb unfolding assms(1)
    by (rule py_slice_at [of _ "pre @ a" _ mid "b @ post", simplified]) simp_all
  show "py_slice_from s (py_find s b + int (length b)) = post"
    unfolding fb unfolding assms(1)
    by (rule py_slice_from_at [of _ "pre @ a @ mid @ b" post, simplified]) simp
qed

lemma after_first:
  assumes "s = pre @ a @ post" and "own_head a" and "\<not> sublist a pre"
  shows "sublist a s" and "py_slice_from s (py_find s a + int (length a)) = post"
proof -
  show "sublist a s"
    unfolding assms(1) by simp
  have fa: "py_find s a = int (length pre)"
    using py_find_first [OF assms(2,3)] assms(1) by simp
  show "py_slice_from s (py_find s a + int (length a)) = post"
    unfolding fa unfolding assms(1)
    by (rule py_slice_from_at [of _ "pre @ a" post, simplified]) simp
qed

lemma extract_reasoning_content_think:
  assumes "model_output = pre @ think_start @ mid @ think_end @ post"
    and "\<not> sublist think_start pre"
    and "\<not> sublist think_end (pre @ think_start @ mid)"
  shows "extract_reasoning_content self model_output request
    = (or_none (py_strip mid),
       if sublist answer_start (py_strip post) \<and> sublist answer_end (py_strip post) then
         or_none (py_strip (py_slice (py_strip post)
           (py_find (py_strip post) answer_start + int (length answer_start))
           (py_find (py_strip post) answer_end)))
       else if sublist answer_start (py_strip post) then
         or_none (py_strip (py_slice_from (py_strip post)
           (py_find (py_strip post) answer_start + int (length answer_start))))
       else or_none (py_strip post))"
  using between_first [OF assms(1) own_head_markers(1,2) assms(2,3)]
  by (simp add: extract_reasoning_content_def Let_def py_in_iff_sublist or_none_def)

text \<open>
  Claim C2, as the code has it.  For a text that is \<open>pre\<close>, \<open>think_start\<close>, \<open>mid\<close>,
  \<open>think_end\<close>, \<open>post\<close>, where these are the first occurrences of the two markers (so
  the first \<open>think_start\<close> comes before the first \<open>think_end\<close>): the reasoning is \<open>mid\<close>
  trimmed; with \<open>rem\<close> the trimmed \<open>post\<close>, the answer is the trimmed text between the
  first \<open>answer_start\<close> and the first \<open>answer_end\<close> after it when \<open>rem\<close> holds both in
  that order, the trimmed text after the first \<open>answer_start\<close> when \<open>rem\<close> holds no
  \<open>answer_end\<close>, and \<open>rem\<close> itself when it holds no \<open>answer_start\<close>.  Every one of these
  values is returned as \<open>None\<close> when it is empty.
\<close>

theorem extract_reasoning_content_think_block:
  assumes "model_output = pre @ think_start @ mid @ think_end @ post"
    and "\<not> sublist think_start pre"
    and "\<not> sublist think_end (pre @ think_start @ mid)"
  shows "fst (extract_reasoning_content self model_output request) = or_none (py_strip mid)
    \<and> (py_strip post = p @ answer_start @ a @ answer_end @ q
          \<and> \<not> sublist answer_start p \<and> \<not> sublist answer_end (p @ answer_start @ a)
        \<longrightarrow> snd (extract_reasoning_content self model_output request) = or_none (py_strip a))
    \<and> (py_strip post = p' @ answer_start @ a'
          \<and> \<not> sublist answer_start p' \<and> \<not> sublist answer_end (py_strip post)
        \<longrightarrow> snd (extract_reasoning_content self model_output request) = or_none (py_strip a'))
    \<and> (\<not> sublist answer_start (py_strip post)
        \<longrightarrow> snd (extract_reasoning_content self model_output request) = or_none (py_strip post))"
proof (intro conjI impI)
  note e = extract_reasoning_content_think [OF assms, of self request]
  show "fst (extract_reasoning_content self model_output request) = or_none (py_strip mid)"
    by (simp add: e)
  {
    assume h: "py_strip post = p @ answer_start @ a @ answer_end @ q
          \<and> \<not> sublist answer_start p \<and> \<not> sublist answer_end (p @ answer_start @ a)"
    from h have d: "py_strip post = p @ answer_start @ a @ answer_end @ q" by simp
    from h have n1: "\<not> sublist answer_start p" by simp
    from h have n2: "\<not> sublist answer_end (p @ answer_start @ a)" by simp
    note b = between_first [OF d own_head_markers(3,4) n1 n2]
    show "snd (extract_reasoning_content self model_output request) = or_none (py_strip a)"
      unfolding e using b(1,2) by (simp add: b(3))
  }
  {
    assume h: "py_strip post = p' @ answer_start @ a'
          \<and> \<not> sublist answer_start p' \<and> \<not> sublist answer_end (py_strip post)"
    from h have d: "py_strip post = p' @ answer_start @ a'" by simp
    from h have n1: "\<not> sublist answer_start p'" by simp
    from h have n2: "\<not> sublist answer_end (py_strip post)" by blast
    note b = after_first [OF d own_head_markers(3) n1]
    show "snd (extract_reasoning_content self model_output request) = or_none (py_strip a')"
      unfolding e using b(1) n2 by (simp add: b(2))
  }
  {
    assume "\<not> sublist answer_start (py_strip post)"
    then show "snd (extract_reasoning_content self model_output request)
        = or_none (py_strip post)"
      unfolding e by simp
  }
qed

text \<open>
  The text "<think> abc </think> <answer> hi </answer>" gives ("abc", "hi").
\<close>

theorem extract_reasoning_content_think_block_witness:
  "extract_reasoning_content (init char_tokenizer)
       ''<think> abc </think> <answer> hi </answer>'' ()
     = (Some ''abc'', Some ''hi'')"
proof -
  have d: "''<think> abc </think> <answer> hi </answer>''
      = [] @ think_start @ '' abc '' @ think_end @ '' <answer> hi </answer>''"
    by (simp add: think_start_def think_end_def)
  have n: "\<not> sublist think_start []" "\<not> sublist think_end ([] @ think_start @ '' abc '')"
    by code_simp+
  have s: "py_strip '' <answer> hi </answer>'' = [] @ answer_start @ '' hi '' @ answer_end @ []
      \<and> \<not> sublist answer_start [] \<and> \<not> sublist answer_end ([] @ answer_start @ '' hi '')"
    by code_simp
  have v: "or_none (py_strip '' abc '') = Some ''abc''" "or_none (py_strip '' hi '') = Some ''hi''"
    by code_simp+
  note t = extract_reasoning_content_think_block [OF d n, where self = "init char_tokenizer"
      and request = "()" and p = "[]" and a = "'' hi ''" and q = "[]"]
  from t have 1: "fst (extract_reasoning_content (init char_tokenizer)
       ''<think> abc </think> <answer> hi </answer>'' ()) = Some ''abc''"
    unfolding v by blast
  from t s have 2: "snd (extract_reasoning_content (init char_tokenizer)
       ''<think> abc </think> <answer> hi </answer>'' ()) = Some ''hi''"
    unfolding v by blast
  from 1 2 show ?thesis
    by (simp add: prod_eq_iff)
qed

text \<open>
  The claim without these two provisos fails: a blank reasoning is returned as \<open>None\<close>,
  not as the empty string that trimming gives; and when \<open>think_end\<close> comes first, the
  reasoning is \<open>None\<close> although "abc" lies between the two markers.
\<close>

theorem extract_reasoning_content_think_block_counterexample:
  "fst (extract_reasoning_content (init char_tokenizer) ''<think> </think><answer>x</answer>'' ())
     \<noteq> Some (py_strip '' '')
   \<and> extract_reasoning_content (init char_tokenizer) ''</think>abc<think>'' ()
     = (None, Some ''abc<think>'')"
  by code_simp

section \<open>Texts made of pieces\<close>

lemma text_of_simps:
  "text_of [] = []"
  "text_of (Mark m # ps) = m @ text_of ps"
  "text_of (Free s # ps) = s @ text_of ps"
  "text_of (xs @ ys) = text_of xs @ text_of ys"
  "text_of (map Free rs) = concat rs"
  by (simp_all add: text_of_def comp_def)

lemma text_of_concat: "text_of (concat gs) = concat (map text_of gs)"
  by (induction gs) (simp_all add: text_of_simps)

lemma plain_no_marker:
  assumes "plain s" and "m \<in> markers"
  shows "\<not> sublist m s"
  using sublist_plain_append [OF assms, of "[]"] marker_facts(1) [OF assms(2)] by simp

lemma blank_plain: "blank s \<Longrightarrow> plain s"
  by (auto simp: blank_def plain_def isspace_def)

lemma blank_append: "blank (a @ b) \<longleftrightarrow> blank a \<and> blank b"
  by (auto simp: blank_def)

lemma sublist_blank_append:
  assumes "blank w" and "m \<in> markers"
  shows "sublist m (w @ rest) \<longleftrightarrow> sublist m rest"
  using blank_plain [OF assms(1)] assms(2) by (rule sublist_plain_append)

lemma not_sublist_part:
  "\<not> sublist m (xs @ ys @ zs) \<Longrightarrow> \<not> sublist m ys"
  by (meson sublist_appendI sublist_order.order_trans)

lemma not_sublist_left: "\<not> sublist m (xs @ ys) \<Longrightarrow> \<not> sublist m xs"
  using not_sublist_part [of m "[]" xs ys] by simp

lemma not_sublist_right: "\<not> sublist m (xs @ ys) \<Longrightarrow> \<not> sublist m ys"
  using not_sublist_part [of m xs ys "[]"] by simp

lemma replace_scan_absent:
  "\<not> sublist m s \<Longrightarrow> replace_scan s m new = s"
  by (induction s) (auto simp: sublist_Cons_right startswith_iff_prefix)

lemma replace_scan_before_marker:
  assumes "m \<in> markers" and "t \<in> markers" and "\<not> sublist m acc"
  shows "replace_scan (acc @ t @ rest) m new = acc @ replace_scan (t @ rest) m new"
  using assms(3)
proof (induction acc)
  case Nil
  show ?case by simp
next
  case (Cons a acc)
  have "\<not> prefix m (a # acc)"
    using Cons.prems prefix_imp_sublist by blast
  moreover have "hd t \<notin> set (tl m)"
    using marker_facts(2) [OF assms(2)] marker_facts(3) [OF assms(1)] by (simp add: plain_def)
  ultimately have no: "\<not> prefix m ((a # acc) @ t @ rest)"
    using prefix_overlap [of m "a # acc" t rest] marker_facts(1) [OF assms(2)] by auto
  have "\<not> sublist m acc"
    using Cons.prems by (auto simp: sublist_Cons_right)
  with Cons.IH no show ?case
    by (simp add: startswith_iff_prefix)
qed

lemma runs_free_acc: "runs_free m acc ps \<Longrightarrow> \<not> sublist m acc"
proof (induction ps arbitrary: acc)
  case Nil
  then show ?case by simp
next
  case (Cons p ps)
  then show ?case
    by (cases p) (auto dest: not_sublist_left)
qed

lemma runs_free_drop_acc: "runs_free m (a @ acc) ps \<Longrightarrow> runs_free m acc ps"
proof (induction ps arbitrary: acc)
  case Nil
  then show ?case by (auto dest: not_sublist_right)
next
  case (Cons p ps)
  show ?case
  proof (cases p)
    case (Mark t)
    with Cons.prems show ?thesis by (auto dest: not_sublist_right)
  next
    case (Free s)
    with Cons.prems have "runs_free m (a @ (acc @ s)) ps" by simp
    from Cons.IH [OF this] Free show ?thesis by simp
  qed
qed

lemma runs_free_prefix: "runs_free m acc (xs @ ys) \<Longrightarrow> runs_free m acc xs"
proof (induction xs arbitrary: acc)
  case Nil
  then show ?case by (simp add: runs_free_acc)
next
  case (Cons p xs)
  then show ?case by (cases p) auto
qed

lemma runs_free_suffix: "runs_free m acc (xs @ ys) \<Longrightarrow> runs_free m [] ys"
proof (induction xs arbitrary: acc)
  case Nil
  then show ?case using runs_free_drop_acc [of m acc "[]" ys] by simp
next
  case (Cons p xs)
  then show ?case by (cases p) auto
qed

lemma runs_free_map_Free:
  "runs_free m acc (map Free xs @ rest) = runs_free m (acc @ concat xs) rest"
  by (induction xs arbitrary: acc) simp_all

lemma replace_runs:
  assumes "m \<in> markers" and "runs_free m acc ps" and "\<forall>t. Mark t \<in> set ps \<longrightarrow> t \<in> markers"
  shows "replace_scan (acc @ text_of ps) m [] = acc @ text_of (filter (\<lambda>p. p \<noteq> Mark m) ps)"
  using assms(2,3)
proof (induction ps arbitrary: acc)
  case Nil
  then show ?case by (simp add: text_of_simps replace_scan_absent)
next
  case (Cons p ps)
  show ?case
  proof (cases p)
    case (Free s)
    with Cons.prems have "runs_free m (acc @ s) ps" and "\<forall>t. Mark t \<in> set ps \<longrightarrow> t \<in> markers"
      by simp_all
    from Cons.IH [OF this] Free show ?thesis
      by (simp add: text_of_simps)
  next
    case (Mark t)
    with Cons.prems have na: "\<not> sublist m acc" and rf: "runs_free m [] ps"
      and mk: "\<forall>t. Mark t \<in> set ps \<longrightarrow> t \<in> markers" and t: "t \<in> markers"
      by simp_all
    have 1: "replace_scan (acc @ t @ text_of ps) m [] = acc @ replace_scan (t @ text_of ps) m []"
      using assms(1) t na by (rule replace_scan_before_marker)
    have 2: "replace_scan (text_of ps) m [] = text_of (filter (\<lambda>p. p \<noteq> Mark m) ps)"
      using Cons.IH [OF rf mk] by simp
    show ?thesis
    proof (cases "t = m")
      case True
      with replace_scan_same [OF assms(1), of "text_of ps"] 1 2 Mark show ?thesis
        by (simp add: text_of_simps)
    next
      case False
      with replace_scan_other [OF assms(1) t, of "text_of ps" "[]"] 1 2 Mark show ?thesis
        by (simp add: text_of_simps)
    qed
  qed
qed

lemma strip_answer_tags_pieces:
  assumes "tag_safe ps"
  shows "strip_answer_tags (text_of ps)
    = text_of (filter (\<lambda>p. p \<noteq> Mark answer_start \<and> p \<noteq> Mark answer_end) ps)"
proof -
  from assms have r1: "runs_free answer_start [] ps"
    and r2: "runs_free answer_end [] (filter (\<lambda>p. p \<noteq> Mark answer_start) ps)"
    and mk: "\<forall>t. Mark t \<in> set ps \<longrightarrow> t \<in> markers"
    by (simp_all add: tag_safe_def)
  have m1: "answer_start \<in> markers" and m2: "answer_end \<in> markers"
    by (simp_all add: markers_def)
  have 1: "py_replace (text_of ps) answer_start []
      = text_of (filter (\<lambda>p. p \<noteq> Mark answer_start) ps)"
    using replace_runs [OF m1 r1 mk] marker_facts(1) [OF m1] by (simp add: py_replace_def)
  have mk': "\<forall>t. Mark t \<in> set (filter (\<lambda>p. p \<noteq> Mark answer_start) ps) \<longrightarrow> t \<in> markers"
    using mk by simp
  have 2: "py_replace (text_of (filter (\<lambda>p. p \<noteq> Mark answer_start) ps)) answer_end []
      = text_of (filter (\<lambda>p. p \<noteq> Mark answer_end) (filter (\<lambda>p. p \<noteq> Mark answer_start) ps))"
    using replace_runs [OF m2 r2 mk'] marker_facts(1) [OF m2] by (simp add: py_replace_def)
  have 3: "(\<lambda>p. p \<noteq> Mark answer_start \<and> p \<noteq> Mark answer_end)
      = (\<lambda>p. p \<noteq> Mark answer_end \<and> p \<noteq> Mark answer_start)"
    by auto
  show ?thesis
    by (simp add: strip_answer_tags_def 1 2 3)
qed

lemma runs_free_part: "runs_free m [] (xs @ g @ ys) \<Longrightarrow> runs_free m [] g"
  using runs_free_prefix runs_free_suffix by blast

lemma tag_safe_part:
  assumes "tag_safe (xs @ g @ ys)"
  shows "tag_safe g"
proof -
  from assms have "runs_free answer_start [] (xs @ g @ ys)"
    by (simp add: tag_safe_def)
  then have 1: "runs_free answer_start [] g"
    by (rule runs_free_part)
  from assms have "runs_free answer_end [] (filter (\<lambda>p. p \<noteq> Mark answer_start) xs
      @ filter (\<lambda>p. p \<noteq> Mark answer_start) g @ filter (\<lambda>p. p \<noteq> Mark answer_start) ys)"
    by (simp add: tag_safe_def)
  then have 2: "runs_free answer_end [] (filter (\<lambda>p. p \<noteq> Mark answer_start) g)"
    by (rule runs_free_part)
  from assms have "\<forall>t. Mark t \<in> set g \<longrightarrow> t \<in> markers"
    by (simp add: tag_safe_def)
  with 1 2 show ?thesis
    by (simp add: tag_safe_def)
qed

lemma strip_answer_tags_groups:
  "tag_safe (concat gs)
     \<Longrightarrow> concat (map strip_answer_tags (map text_of gs))
         = text_of (filter (\<lambda>p. p \<noteq> Mark answer_start \<and> p \<noteq> Mark answer_end) (concat gs))"
proof (induction gs)
  case Nil
  show ?case by (simp add: text_of_simps)
next
  case (Cons g gs)
  have "tag_safe g"
    using tag_safe_part [of "[]" g "concat gs"] Cons.prems by simp
  moreover have "tag_safe (concat gs)"
    using tag_safe_part [of g "concat gs" "[]"] Cons.prems by simp
  ultimately have "tag_safe g" and "tag_safe (concat gs)" .
  with Cons.IH show ?case
    by (simp add: strip_answer_tags_pieces text_of_simps)
qed

lemma dropWhile_keep: "xs \<noteq> [] \<Longrightarrow> \<not> P (hd xs) \<Longrightarrow> dropWhile P xs = xs"
  by (cases xs) simp_all

lemma dropWhile_before_kept:
  "ys \<noteq> [] \<Longrightarrow> \<not> P (hd ys) \<Longrightarrow> dropWhile P (xs @ ys) = dropWhile P xs @ ys"
  by (induction xs) (simp_all add: dropWhile_keep)

lemma py_strip_id:
  assumes "s \<noteq> []" and "\<not> isspace (hd s)" and "\<not> isspace (last s)"
  shows "py_strip s = s"
proof -
  have 1: "dropWhile isspace s = s"
    using assms(1,2) by (rule dropWhile_keep)
  have 2: "dropWhile isspace (rev s) = rev s"
    using assms(1,3) by (intro dropWhile_keep) (simp_all add: hd_rev)
  show ?thesis
    by (simp add: py_strip_def 1 2)
qed

lemma py_strip_blank: "blank s \<Longrightarrow> py_strip s = []"
  by (auto simp: py_strip_def blank_def dest: set_dropWhileD)

lemma py_strip_pad:
  assumes "blank u" and "blank v"
  shows "py_strip (u @ s @ v) = py_strip s"
proof -
  have 1: "dropWhile isspace (u @ s @ v) = dropWhile isspace (s @ v)"
    using assms(1) by (simp add: blank_def)
  show ?thesis
  proof (cases "dropWhile isspace s = []")
    case True
    then have "blank s"
      by (simp add: blank_def dropWhile_eq_Nil_conv)
    with assms(2) have "blank (s @ v)"
      by (simp add: blank_append)
    then have "py_strip (s @ v) = []" and "py_strip s = []"
      using \<open>blank s\<close> by (simp_all add: py_strip_blank)
    moreover have "py_strip (u @ s @ v) = py_strip (s @ v)"
      by (simp add: py_strip_def 1)
    ultimately show ?thesis
      by simp
  next
    case False
    then obtain x where "x \<in> set s" "\<not> isspace x"
      by (auto simp: dropWhile_eq_Nil_conv)
    then have 2: "dropWhile isspace (s @ v) = dropWhile isspace s @ v"
      by (rule dropWhile_append1)
    have "\<And>x. x \<in> set (rev v) \<Longrightarrow> isspace x"
      using assms(2) by (simp add: blank_def)
    then have "dropWhile isspace (rev v @ rev (dropWhile isspace s))
        = dropWhile isspace (rev (dropWhile isspace s))"
      by (rule dropWhile_append2)
    then show ?thesis
      by (simp add: py_strip_def 1 2)
  qed
qed

lemma py_strip_sublist: "sublist (py_strip s) s"
proof -
  let ?t = "dropWhile isspace s"
  have "sublist (dropWhile isspace (rev ?t)) (rev ?t)"
    by simp
  then have "sublist (rev (dropWhile isspace (rev ?t))) ?t"
    by (simp add: sublist_rev_left)
  moreover have "sublist ?t s"
    by simp
  ultimately show ?thesis
    unfolding py_strip_def by (rule sublist_order.order_trans)
qed

text \<open>The text \<open>y\<close> and the trailing whitespace \<open>v\<close> of a text.\<close>

lemma rstrip_split:
  obtains y v where "a = y @ v" and "blank v" and "rev (dropWhile isspace (rev a)) = y"
proof
  show "a = rev (dropWhile isspace (rev a)) @ rev (takeWhile isspace (rev a))"
    by (metis rev_append rev_rev_ident takeWhile_dropWhile_id)
  show "blank (rev (takeWhile isspace (rev a)))"
    by (auto simp: blank_def dest: set_takeWhileD)
  show "rev (dropWhile isspace (rev a)) = rev (dropWhile isspace (rev a))"
    by simp
qed

lemma tag_safe_untagged:
  assumes "untagged (concat cs)"
  shows "tag_safe (map Free cs)"
proof -
  have "runs_free m [] (map Free cs) = (\<not> sublist m (concat cs))" for m
    using runs_free_map_Free [of m "[]" cs "[]"] by simp
  moreover have "filter (\<lambda>p. p \<noteq> Mark answer_start) (map Free cs) = map Free cs"
    by (induction cs) simp_all
  ultimately show ?thesis
    using assms by (auto simp: tag_safe_def untagged_def)
qed

lemma filter_map_Free: "filter (\<lambda>p. p \<noteq> Mark a \<and> p \<noteq> Mark b) (map Free cs) = map Free cs"
  by (induction cs) simp_all

lemma filter_map_Free1: "filter (\<lambda>p. p \<noteq> Mark a) (map Free cs) = map Free cs"
  by (induction cs) simp_all

lemma marker_neq:
  "answer_start \<noteq> answer_end" "answer_end \<noteq> answer_start"
  "think_start \<noteq> think_end" "think_end \<noteq> think_start"
  "think_start \<noteq> answer_start" "think_start \<noteq> answer_end"
  "answer_start \<noteq> think_start" "answer_end \<noteq> think_start"
  "think_end \<noteq> answer_start" "think_end \<noteq> answer_end"
  by (simp_all add: think_start_def think_end_def answer_start_def answer_end_def)

lemma marker_mem:
  "think_start \<in> markers" "think_end \<in> markers" "answer_start \<in> markers"
  "answer_end \<in> markers"
  by (simp_all add: markers_def)

lemma tag_safe_answer:
  assumes "blank (concat ws)" and "untagged (concat aa)" and "blank (concat qs)"
  shows "tag_safe (map Free ws @ Mark answer_start # map Free aa)"
    and "tag_safe (map Free ws @ Mark answer_start # map Free aa @ Mark answer_end # map Free qs)"
proof -
  have w: "\<not> sublist m (concat ws)" and q: "\<not> sublist m (concat qs)" if "m \<in> markers" for m
    using plain_no_marker [OF blank_plain [OF assms(1)] that]
      plain_no_marker [OF blank_plain [OF assms(3)] that] by simp_all
  have wa: "\<not> sublist answer_end (concat ws @ concat aa)"
    using sublist_blank_append [OF assms(1) marker_mem(4)] assms(2)
    by (simp add: untagged_def)
  have rf: "runs_free m [] (map Free xs) = (\<not> sublist m (concat xs))" for m xs
    using runs_free_map_Free [of m "[]" xs "[]"] by simp
  have rf2: "runs_free m acc (map Free xs) = (\<not> sublist m (acc @ concat xs))" for m acc xs
    using runs_free_map_Free [of m acc xs "[]"] by simp
  show "tag_safe (map Free ws @ Mark answer_start # map Free aa)"
    using w [OF marker_mem(3)] wa assms(2)
    by (auto simp: tag_safe_def runs_free_map_Free rf rf2 filter_map_Free1 untagged_def
        marker_mem)
  show "tag_safe (map Free ws @ Mark answer_start # map Free aa @ Mark answer_end # map Free qs)"
    using w [OF marker_mem(3)] wa assms(2) q [OF marker_mem(3)] q [OF marker_mem(4)]
    by (auto simp: tag_safe_def runs_free_map_Free rf rf2 filter_map_Free1 untagged_def
        marker_mem marker_neq)
qed

lemma content_pieces_tag_safe: "content_pieces cps \<Longrightarrow> tag_safe cps"
  unfolding content_pieces_def answer_pieces_def
  by (auto intro: tag_safe_untagged tag_safe_answer)

section \<open>The streaming parser over a sequence of deltas\<close>

lemma concat_split_at:
  "concat gs = xs @ t # ys
     \<Longrightarrow> \<exists>gs1 g1 g2 gs2. gs = gs1 @ (g1 @ t # g2) # gs2 \<and> xs = concat gs1 @ g1
           \<and> ys = g2 @ concat gs2"
proof (induction gs arbitrary: xs)
  case Nil
  then show ?case by simp
next
  case (Cons g gs)
  from Cons.prems have "g @ concat gs = xs @ t # ys" by simp
  then consider us where "g = xs @ us" "us @ concat gs = t # ys"
    | us where "g @ us = xs" "concat gs = us @ t # ys"
    by (auto simp: append_eq_append_conv2)
  then show ?case
  proof cases
    case 1
    show ?thesis
    proof (cases us)
      case Nil
      with 1 have "concat gs = [] @ t # ys" by simp
      from Cons.IH [OF this] obtain gs1 g1 g2 gs2
        where "gs = gs1 @ (g1 @ t # g2) # gs2" "[] = concat gs1 @ g1" "ys = g2 @ concat gs2"
        by blast
      with 1(1) Nil have "g # gs = (g # gs1) @ (g1 @ t # g2) # gs2
          \<and> xs = concat (g # gs1) @ g1 \<and> ys = g2 @ concat gs2"
        by simp
      then show ?thesis by blast
    next
      case (Cons u us')
      with 1 have "g # gs = [] @ (xs @ t # us') # gs \<and> xs = concat [] @ xs
          \<and> ys = us' @ concat gs"
        by simp
      then show ?thesis by blast
    qed
  next
    case 2
    from Cons.IH [OF 2(2)] obtain gs1 g1 g2 gs2
      where "gs = gs1 @ (g1 @ t # g2) # gs2" "us = concat gs1 @ g1" "ys = g2 @ concat gs2"
      by blast
    with 2(1) have "g # gs = (g # gs1) @ (g1 @ t # g2) # gs2
        \<and> xs = concat (g # gs1) @ g1 \<and> ys = g2 @ concat gs2"
      by auto
    then show ?thesis by blast
  qed
qed

lemma initial_plain_step:
  assumes "current_state self = Initial"
    and "\<not> sublist think_start current_text" and "\<not> sublist answer_start delta_text"
  shows "extract_reasoning_content_streaming self previous_text current_text delta_text
           pids cids dids
         = (self\<lparr>buffer := current_text\<rparr>,
            if delta_text \<noteq> [] then Some \<lparr>reasoning_content = None, content = Some delta_text\<rparr>
            else None)"
  using assms
  by (simp add: extract_reasoning_content_streaming_def Let_def py_in_iff_sublist)

lemma initial_answer_step:
  assumes "current_state self = Initial"
    and "\<not> sublist think_start current_text" and "sublist answer_start delta_text"
  shows "extract_reasoning_content_streaming self previous_text current_text delta_text
           pids cids dids
         = (self\<lparr>buffer := current_text, current_state := Content\<rparr>,
            Some \<lparr>reasoning_content = None, content = or_none (strip_answer_tags delta_text)\<rparr>)"
  using assms
  by (simp add: extract_reasoning_content_streaming_def Let_def py_in_iff_sublist
      strip_answer_tags_def)

lemma initial_open_step:
  assumes "current_state self = Initial"
    and "sublist think_start current_text"
    and "delta_text = pre @ think_start @ r"
    and "\<not> sublist think_start pre"
    and "\<not> sublist think_end delta_text"
  shows "extract_reasoning_content_streaming self previous_text current_text delta_text
           pids cids dids
         = (self\<lparr>buffer := current_text, current_state := Thinking\<rparr>,
            Some \<lparr>reasoning_content = or_none r, content = None\<rparr>)"
  using assms(1,2,5) after_first [OF assms(3) own_head_markers(1) assms(4)]
  by (simp add: extract_reasoning_content_streaming_def Let_def py_in_iff_sublist)

lemma thinking_more_step:
  assumes "current_state self = Thinking" and "\<not> sublist think_end delta_text"
  shows "extract_reasoning_content_streaming self previous_text current_text delta_text
           pids cids dids
         = (self\<lparr>buffer := current_text\<rparr>,
            Some \<lparr>reasoning_content = Some delta_text, content = None\<rparr>)"
  using assms
  by (simp add: extract_reasoning_content_streaming_def Let_def py_in_iff_sublist)

lemma content_step:
  assumes "current_state self = Content"
  shows "extract_reasoning_content_streaming self previous_text current_text delta_text
           pids cids dids
         = (self\<lparr>buffer := current_text\<rparr>,
            if strip_answer_tags delta_text \<noteq> [] then
              Some \<lparr>reasoning_content = None, content = Some (strip_answer_tags delta_text)\<rparr>
            else None)"
  using assms
  by (simp add: extract_reasoning_content_streaming_def Let_def strip_answer_tags_def)

lemma reasoning_of_simps:
  "reasoning_of None = []"
  "reasoning_of (Some \<lparr>reasoning_content = None, content = c\<rparr>) = []"
  "reasoning_of (Some \<lparr>reasoning_content = Some r, content = c\<rparr>) = r"
  "reasoning_of (Some \<lparr>reasoning_content = or_none r, content = c\<rparr>) = r"
  by (simp_all add: reasoning_of_def or_none_def)

lemma content_of_simps:
  "content_of None = []"
  "content_of (Some \<lparr>reasoning_content = r, content = None\<rparr>) = []"
  "content_of (Some \<lparr>reasoning_content = r, content = Some c\<rparr>) = c"
  "content_of (Some \<lparr>reasoning_content = r, content = or_none c\<rparr>) = c"
  by (simp_all add: content_of_def or_none_def)

lemma fragments_Cons:
  "reasoning_fragments (m # ms) = reasoning_of m @ reasoning_fragments ms"
  "content_fragments (m # ms) = content_of m @ content_fragments ms"
  "reasoning_fragments [] = []"
  "content_fragments [] = []"
  by (simp_all add: reasoning_fragments_def content_fragments_def)

lemma fragments_append:
  "reasoning_fragments (ms @ ns) = reasoning_fragments ms @ reasoning_fragments ns"
  "content_fragments (ms @ ns) = content_fragments ms @ content_fragments ns"
  by (simp_all add: reasoning_fragments_def content_fragments_def)

lemma feed_append:
  "feed self prev (ds1 @ ds2)
     = (fst (feed (fst (feed self prev ds1)) (prev @ concat ds1) ds2),
        snd (feed self prev ds1) @ snd (feed (fst (feed self prev ds1)) (prev @ concat ds1) ds2))"
  by (induction ds1 arbitrary: self prev) (simp_all add: Let_def)

lemma feed_content:
  assumes "current_state self = Content"
  shows "current_state (fst (feed self prev ds)) = Content
    \<and> reasoning_fragments (snd (feed self prev ds)) = []
    \<and> content_fragments (snd (feed self prev ds)) = concat (map strip_answer_tags ds)"
  using assms
proof (induction ds arbitrary: self prev)
  case Nil
  then show ?case by (simp add: fragments_Cons)
next
  case (Cons d ds)
  let ?r = "extract_reasoning_content_streaming self prev (prev @ d) d [] [] []"
  have r: "?r = (self\<lparr>buffer := prev @ d\<rparr>,
      if strip_answer_tags d \<noteq> [] then
        Some \<lparr>reasoning_content = None, content = Some (strip_answer_tags d)\<rparr>
      else None)"
    using Cons.prems by (rule content_step)
  have "current_state (fst ?r) = Content"
    using Cons.prems by (simp add: r)
  from Cons.IH [OF this, of "prev @ d"] show ?case
    by (simp add: Let_def fragments_Cons r reasoning_of_simps content_of_simps)
qed

lemma feed_thinking:
  assumes "current_state self = Thinking"
    and "\<forall>d \<in> set ds1. \<not> sublist think_end d" and "\<not> sublist think_end mid"
  shows "current_state (fst (feed self prev (ds1 @ (mid @ think_end @ post) # ds2))) = Content
    \<and> reasoning_fragments (snd (feed self prev (ds1 @ (mid @ think_end @ post) # ds2)))
        = concat ds1 @ mid
    \<and> content_fragments (snd (feed self prev (ds1 @ (mid @ think_end @ post) # ds2)))
        = strip_answer_tags post @ concat (map strip_answer_tags ds2)"
  using assms(1,2)
proof (induction ds1 arbitrary: self prev)
  case Nil
  let ?d = "mid @ think_end @ post"
  let ?r = "extract_reasoning_content_streaming self prev (prev @ ?d) ?d [] [] []"
  have r: "?r = (self\<lparr>buffer := prev @ ?d, current_state := Content, thinking_complete := True\<rparr>,
      Some \<lparr>reasoning_content = or_none mid, content = or_none (strip_answer_tags post)\<rparr>)"
    using Nil.prems(1) _ assms(3) by (rule thinking_end_step) simp
  have "current_state (fst ?r) = Content"
    by (simp add: r)
  from feed_content [OF this, of "prev @ ?d" ds2] show ?case
    by (simp add: Let_def fragments_Cons r reasoning_of_simps content_of_simps)
next
  case (Cons d ds1)
  let ?r = "extract_reasoning_content_streaming self prev (prev @ d) d [] [] []"
  have r: "?r = (self\<lparr>buffer := prev @ d\<rparr>,
      Some \<lparr>reasoning_content = Some d, content = None\<rparr>)"
    using Cons.prems by (intro thinking_more_step) simp_all
  have "current_state (fst ?r) = Thinking"
    using Cons.prems(1) by (simp add: r)
  from Cons.IH [OF this, of "prev @ d"] Cons.prems(2) show ?case
    by (simp add: Let_def fragments_Cons r reasoning_of_simps content_of_simps)
qed

lemma feed_initial_free:
  assumes "current_state self = Initial"
    and "\<not> sublist think_start (prev @ concat ds)"
    and "\<not> sublist answer_start (concat ds)"
  shows "current_state (fst (feed self prev ds)) = Initial
    \<and> reasoning_fragments (snd (feed self prev ds)) = []
    \<and> content_fragments (snd (feed self prev ds)) = concat ds"
  using assms
proof (induction ds arbitrary: self prev)
  case Nil
  then show ?case by (simp add: fragments_Cons)
next
  case (Cons d ds)
  let ?r = "extract_reasoning_content_streaming self prev (prev @ d) d [] [] []"
  have r: "?r = (self\<lparr>buffer := prev @ d\<rparr>,
      if d \<noteq> [] then Some \<lparr>reasoning_content = None, content = Some d\<rparr> else None)"
    using Cons.prems(1)
  proof (rule initial_plain_step)
    show "\<not> sublist think_start (prev @ d)"
      using Cons.prems(2) not_sublist_left [of think_start "prev @ d" "concat ds"] by simp
    show "\<not> sublist answer_start d"
      using Cons.prems(3) not_sublist_left [of answer_start d "concat ds"] by simp
  qed
  have 1: "current_state (fst ?r) = Initial"
    using Cons.prems(1) by (simp add: r)
  have 2: "\<not> sublist think_start ((prev @ d) @ concat ds)"
    using Cons.prems(2) by simp
  have 3: "\<not> sublist answer_start (concat ds)"
    using Cons.prems(3) not_sublist_right [of answer_start d "concat ds"] by simp
  from Cons.IH [OF 1 2 3] show ?case
    by (simp add: Let_def fragments_Cons r reasoning_of_simps content_of_simps)
qed

lemma feed_thinking_open:
  assumes "current_state self = Thinking" and "\<forall>d \<in> set ds. \<not> sublist think_end d"
  shows "reasoning_fragments (snd (feed self prev ds)) = concat ds
    \<and> content_fragments (snd (feed self prev ds)) = []"
  using assms
proof (induction ds arbitrary: self prev)
  case Nil
  then show ?case by (simp add: fragments_Cons)
next
  case (Cons d ds)
  let ?r = "extract_reasoning_content_streaming self prev (prev @ d) d [] [] []"
  have r: "?r = (self\<lparr>buffer := prev @ d\<rparr>,
      Some \<lparr>reasoning_content = Some d, content = None\<rparr>)"
    using Cons.prems by (intro thinking_more_step) simp_all
  have "current_state (fst ?r) = Thinking"
    using Cons.prems(1) by (simp add: r)
  from Cons.IH [OF this, of "prev @ d"] Cons.prems(2) show ?case
    by (simp add: Let_def fragments_Cons r reasoning_of_simps content_of_simps)
qed

lemma group_sublist: "g \<in> set gs \<Longrightarrow> sublist (text_of g) (text_of (concat gs))"
proof -
  assume "g \<in> set gs"
  then obtain a b where "gs = a @ g # b"
    by (auto simp: in_set_conv_decomp)
  then have "text_of (concat gs) = text_of (concat a) @ text_of g @ text_of (concat b)"
    by (simp add: text_of_simps)
  then show ?thesis
    by simp
qed

lemma not_sublist_sub: "sublist a b \<Longrightarrow> \<not> sublist m b \<Longrightarrow> \<not> sublist m a"
  using sublist_order.order_trans by blast

lemma feed_think_open_groups:
  assumes "current_state self = Thinking"
    and "concat gs = map Free rs" and "\<not> sublist think_end (concat rs)"
  shows "reasoning_fragments (snd (feed self prev (map text_of gs))) = concat rs
    \<and> content_fragments (snd (feed self prev (map text_of gs))) = []"
proof -
  have "\<forall>d \<in> set (map text_of gs). \<not> sublist think_end d"
  proof
    fix d
    assume "d \<in> set (map text_of gs)"
    then obtain g where "g \<in> set gs" "d = text_of g"
      by auto
    then have "sublist d (concat rs)"
      using group_sublist [of g gs] assms(2) by (simp add: text_of_simps)
    then show "\<not> sublist think_end d"
      using assms(3) by (rule not_sublist_sub)
  qed
  from feed_thinking_open [OF assms(1) this, of prev] show ?thesis
    using assms(2) by (simp add: text_of_concat [symmetric] text_of_simps)
qed

lemma feed_think_closed_groups:
  assumes "current_state self = Thinking"
    and "concat gs = map Free rs @ Mark think_end # cps"
    and "\<not> sublist think_end (concat rs)" and "tag_safe cps"
  shows "reasoning_fragments (snd (feed self prev (map text_of gs))) = concat rs
    \<and> content_fragments (snd (feed self prev (map text_of gs)))
        = text_of (filter (\<lambda>p. p \<noteq> Mark answer_start \<and> p \<noteq> Mark answer_end) cps)"
proof -
  from concat_split_at [OF assms(2)] obtain hs1 h1 h2 hs2
    where gs: "gs = hs1 @ (h1 @ Mark think_end # h2) # hs2"
      and rs: "map Free rs = concat hs1 @ h1" and cps: "cps = h2 @ concat hs2"
    by blast
  have R: "concat rs = text_of (concat hs1) @ text_of h1"
    using rs text_of_simps(5) [of rs] by (simp add: text_of_simps)
  have ds: "map text_of gs
      = map text_of hs1 @ (text_of h1 @ think_end @ text_of h2) # map text_of hs2"
    by (simp add: gs text_of_simps)
  have n1: "\<forall>d \<in> set (map text_of hs1). \<not> sublist think_end d"
  proof
    fix d
    assume "d \<in> set (map text_of hs1)"
    then obtain g where "g \<in> set hs1" "d = text_of g"
      by auto
    then have "sublist d (text_of (concat hs1))"
      using group_sublist [of g hs1] by simp
    moreover have "\<not> sublist think_end (text_of (concat hs1))"
      using assms(3) unfolding R by (rule not_sublist_left)
    ultimately show "\<not> sublist think_end d"
      by (rule not_sublist_sub)
  qed
  have n2: "\<not> sublist think_end (text_of h1)"
    using assms(3) unfolding R by (rule not_sublist_right)
  note t = feed_thinking [OF assms(1) n1 n2, of prev "text_of h2" "map text_of hs2"]
  have "tag_safe (concat (h2 # hs2))"
    using assms(4) cps by simp
  from strip_answer_tags_groups [OF this] cps
  have c: "strip_answer_tags (text_of h2) @ concat (map strip_answer_tags (map text_of hs2))
      = text_of (filter (\<lambda>p. p \<noteq> Mark answer_start \<and> p \<noteq> Mark answer_end) cps)"
    by simp
  have "concat (map text_of hs1) @ text_of h1 = concat rs"
    by (simp add: R text_of_concat)
  with t c show ?thesis
    by (simp add: ds)
qed

lemma feed_from_think_delta:
  assumes "current_state self = Initial"
    and "\<not> sublist think_start pre"
    and "\<not> sublist think_end (pre @ think_start @ concat rs)"
    and "g2 @ concat gs2 = map Free rs @ tail"
    and "tail = [] \<or> (\<exists>cps. tail = Mark think_end # cps \<and> tag_safe cps)"
  shows "reasoning_fragments (snd (feed self prev
             (map text_of ((Free pre # Mark think_start # g2) # gs2)))) = concat rs
    \<and> content_fragments (snd (feed self prev
             (map text_of ((Free pre # Mark think_start # g2) # gs2))))
        = text_of (filter (\<lambda>p. p \<noteq> Mark answer_start \<and> p \<noteq> Mark answer_end) (tl tail))"
proof -
  let ?d = "pre @ think_start @ text_of g2"
  let ?r = "extract_reasoning_content_streaming self prev (prev @ ?d) ?d [] [] []"
  have ds: "map text_of ((Free pre # Mark think_start # g2) # gs2) = ?d # map text_of gs2"
    by (simp add: text_of_simps)
  from assms(4) have "\<exists>us. (g2 = map Free rs @ us \<and> us @ concat gs2 = tail)
      \<or> (g2 @ us = map Free rs \<and> concat gs2 = us @ tail)"
    by (simp add: append_eq_append_conv2)
  then consider
    (whole) us cps where "g2 = map Free rs @ Mark think_end # us" "tail = Mark think_end # cps"
      "cps = us @ concat gs2" "tag_safe cps"
    | (later) rs1 rs2 where "rs = rs1 @ rs2" "g2 = map Free rs1" "concat gs2 = map Free rs2 @ tail"
  proof -
    assume w: "\<And>us cps. g2 = map Free rs @ Mark think_end # us \<Longrightarrow> tail = Mark think_end # cps
        \<Longrightarrow> cps = us @ concat gs2 \<Longrightarrow> tag_safe cps \<Longrightarrow> thesis"
      and l: "\<And>rs1 rs2. rs = rs1 @ rs2 \<Longrightarrow> g2 = map Free rs1
        \<Longrightarrow> concat gs2 = map Free rs2 @ tail \<Longrightarrow> thesis"
    from \<open>\<exists>us. _\<close> obtain us where
      us: "(g2 = map Free rs @ us \<and> us @ concat gs2 = tail)
        \<or> (g2 @ us = map Free rs \<and> concat gs2 = us @ tail)"
      by blast
    show thesis
    proof (cases "g2 = map Free rs @ us \<and> us @ concat gs2 = tail \<and> us \<noteq> []")
      case True
      then obtain u us' where u: "us = u # us'"
        by (cases us) auto
      with True have "tail \<noteq> []"
        by auto
      with assms(5) obtain cps where c: "tail = Mark think_end # cps" "tag_safe cps"
        by blast
      with True u have "u = Mark think_end" "cps = us' @ concat gs2"
        by auto
      with True u c show thesis
        by (intro w [of us' cps]) simp_all
    next
      case False
      with us have "g2 @ us = map Free rs \<and> concat gs2 = us @ tail"
        by auto
      then obtain rs1 rs2 where "rs = rs1 @ rs2" "g2 = map Free rs1" "us = map Free rs2"
        "concat gs2 = us @ tail"
        by (auto simp: append_eq_map_conv)
      then show thesis
        by (intro l [of rs1 rs2]) simp_all
    qed
  qed
  then show ?thesis
  proof cases
    case whole
    have d: "?d = pre @ think_start @ concat rs @ think_end @ text_of us"
      by (simp add: whole(1) text_of_simps)
    have r: "?r = (self\<lparr>buffer := prev @ ?d, current_state := Content, thinking_complete := True\<rparr>,
        Some \<lparr>reasoning_content = or_none (concat rs),
              content = or_none (strip_answer_tags (text_of us))\<rparr>)"
      using assms(1) refl d assms(2,3) by (rule initial_whole_block_step)
    have "current_state (fst ?r) = Content"
      by (simp add: r)
    note c = feed_content [OF this, of "prev @ ?d" "map text_of gs2"]
    have "tag_safe (concat (us # gs2))"
      using whole(3,4) by simp
    from strip_answer_tags_groups [OF this] whole(2,3)
    have "strip_answer_tags (text_of us) @ concat (map strip_answer_tags (map text_of gs2))
        = text_of (filter (\<lambda>p. p \<noteq> Mark answer_start \<and> p \<noteq> Mark answer_end) (tl tail))"
      by simp
    with c show ?thesis
      unfolding ds
      by (simp add: Let_def fragments_Cons r reasoning_of_simps content_of_simps)
  next
    case later
    have d: "?d = pre @ think_start @ concat rs1"
      by (simp add: later(2) text_of_simps)
    have nd: "\<not> sublist think_end ?d"
      using assms(3) not_sublist_left [of think_end "pre @ think_start @ concat rs1" "concat rs2"]
      by (simp add: later(1) d)
    have n2: "\<not> sublist think_end (concat rs2)"
      using assms(3) not_sublist_right [of think_end "pre @ think_start @ concat rs1" "concat rs2"]
      by (simp add: later(1))
    have r: "?r = (self\<lparr>buffer := prev @ ?d, current_state := Thinking\<rparr>,
        Some \<lparr>reasoning_content = or_none (concat rs1), content = None\<rparr>)"
      using assms(1)
    proof (rule initial_open_step)
      show "sublist think_start (prev @ ?d)"
        unfolding sublist_def by (metis append.assoc)
      show "?d = pre @ think_start @ concat rs1"
        by (rule d)
      show "\<not> sublist think_start pre"
        by (rule assms(2))
      show "\<not> sublist think_end ?d"
        by (rule nd)
    qed
    have st: "current_state (fst ?r) = Thinking"
      by (simp add: r)
    have "reasoning_fragments (snd (feed (fst ?r) (prev @ ?d) (map text_of gs2))) = concat rs2
      \<and> content_fragments (snd (feed (fst ?r) (prev @ ?d) (map text_of gs2)))
        = text_of (filter (\<lambda>p. p \<noteq> Mark answer_start \<and> p \<noteq> Mark answer_end) (tl tail))"
    proof (cases "tail = []")
      case True
      with later(3) have "concat gs2 = map Free rs2"
        by simp
      from feed_think_open_groups [OF st this n2, of "prev @ ?d"] True show ?thesis
        by (simp add: text_of_simps)
    next
      case False
      with assms(5) obtain cps where c: "tail = Mark think_end # cps" "tag_safe cps"
        by blast
      with later(3) have "concat gs2 = map Free rs2 @ Mark think_end # cps"
        by simp
      from feed_think_closed_groups [OF st this n2 c(2), of "prev @ ?d"] c(1) show ?thesis
        by simp
    qed
    then show ?thesis
      unfolding ds
      by (simp add: Let_def fragments_Cons r reasoning_of_simps content_of_simps later(1))
  qed
qed

lemma feed_think_groups:
  assumes "current_state self = Initial"
    and "blank (text_of (concat gs0))"
    and "\<not> sublist think_start pre"
    and "\<not> sublist think_end (pre @ think_start @ concat rs)"
    and "g2 @ concat gs2 = map Free rs @ tail"
    and "tail = [] \<or> (\<exists>cps. tail = Mark think_end # cps \<and> tag_safe cps)"
  shows "reasoning_fragments (snd (feed self []
             (map text_of (gs0 @ (Free pre # Mark think_start # g2) # gs2)))) = concat rs
    \<and> content_fragments (snd (feed self []
             (map text_of (gs0 @ (Free pre # Mark think_start # g2) # gs2))))
        = text_of (concat gs0)
          @ text_of (filter (\<lambda>p. p \<noteq> Mark answer_start \<and> p \<noteq> Mark answer_end) (tl tail))"
proof -
  let ?es = "map text_of gs0"
  let ?ds = "map text_of ((Free pre # Mark think_start # g2) # gs2)"
  have w: "concat ?es = text_of (concat gs0)"
    by (simp add: text_of_concat)
  have p: "plain (concat ?es)"
    using assms(2) unfolding w by (rule blank_plain)
  have 1: "\<not> sublist think_start ([] @ concat ?es)"
    using plain_no_marker [OF p marker_mem(1)] by simp
  have 2: "\<not> sublist answer_start (concat ?es)"
    using plain_no_marker [OF p marker_mem(3)] by simp
  note i = feed_initial_free [OF assms(1) 1 2]
  from i have s: "current_state (fst (feed self [] ?es)) = Initial"
    by simp
  note t = feed_from_think_delta [OF s assms(3,4,5,6), of "[] @ concat ?es"]
  have e: "map text_of (gs0 @ (Free pre # Mark think_start # g2) # gs2) = ?es @ ?ds"
    by simp
  have fa: "snd (feed self [] (?es @ ?ds))
      = snd (feed self [] ?es) @ snd (feed (fst (feed self [] ?es)) ([] @ concat ?es) ?ds)"
    by (simp only: feed_append [of self "[]" ?es ?ds] snd_conv)
  from i have i2: "reasoning_fragments (snd (feed self [] ?es)) = []"
    and i3: "content_fragments (snd (feed self [] ?es)) = text_of (concat gs0)"
    by (simp_all add: w)
  show ?thesis
    unfolding e fa fragments_append i2 i3 using t by simp
qed

lemma feed_answer_groups:
  assumes "current_state self = Initial"
    and "concat groups = map Free ws @ Mark answer_start # rest"
    and "blank (concat ws)"
    and "tag_safe (concat groups)"
    and "\<not> sublist think_start (text_of (concat groups))"
  shows "reasoning_fragments (snd (feed self [] (map text_of groups))) = []
    \<and> content_fragments (snd (feed self [] (map text_of groups)))
        = text_of (filter (\<lambda>p. p \<noteq> Mark answer_start \<and> p \<noteq> Mark answer_end)
            (concat groups))"
proof -
  from concat_split_at [OF assms(2)] obtain gs1 g1 g2 gs2
    where g: "groups = gs1 @ (g1 @ Mark answer_start # g2) # gs2"
      and w: "map Free ws = concat gs1 @ g1" and rest: "rest = g2 @ concat gs2"
    by blast
  from w obtain ws1 ws2 where ws: "ws = ws1 @ ws2" "concat gs1 = map Free ws1" "g1 = map Free ws2"
    by (auto simp: map_eq_append_conv)
  let ?ds1 = "map text_of gs1"
  let ?d = "text_of g1 @ answer_start @ text_of g2"
  let ?gs = "(g1 @ Mark answer_start # g2) # gs2"
  have P: "concat ?ds1 = concat ws1"
    by (simp add: text_of_concat [symmetric] ws(2) text_of_simps)
  have b1: "blank (concat ws1)"
    using assms(3) by (simp add: ws(1) blank_append)
  have whole: "text_of (concat groups) = (concat ws1 @ ?d) @ text_of (concat gs2)"
    by (simp add: g text_of_simps ws(2))
  have p: "plain (concat ?ds1)"
    unfolding P using b1 by (rule blank_plain)
  have 1: "\<not> sublist think_start ([] @ concat ?ds1)"
    using plain_no_marker [OF p marker_mem(1)] by simp
  have 2: "\<not> sublist answer_start (concat ?ds1)"
    using plain_no_marker [OF p marker_mem(3)] by simp
  note i = feed_initial_free [OF assms(1) 1 2]
  let ?s = "fst (feed self [] ?ds1)"
  from i have s: "current_state ?s = Initial"
    by simp
  let ?r = "extract_reasoning_content_streaming ?s (concat ws1) (concat ws1 @ ?d) ?d [] [] []"
  have r: "?r = (?s\<lparr>buffer := concat ws1 @ ?d, current_state := Content\<rparr>,
      Some \<lparr>reasoning_content = None, content = or_none (strip_answer_tags ?d)\<rparr>)"
    using s
  proof (rule initial_answer_step)
    show "\<not> sublist think_start (concat ws1 @ ?d)"
      using assms(5) unfolding whole by (rule not_sublist_left)
    show "sublist answer_start ?d"
      by simp
  qed
  have "current_state (fst ?r) = Content"
    by (simp add: r)
  note c = feed_content [OF this, of "concat ws1 @ ?d" "map text_of gs2"]
  have "tag_safe (concat gs1 @ concat ?gs @ [])"
    using assms(4) by (simp add: g)
  then have "tag_safe (concat ?gs)"
    by (rule tag_safe_part)
  from strip_answer_tags_groups [OF this]
  have k: "strip_answer_tags ?d @ concat (map strip_answer_tags (map text_of gs2))
      = text_of (filter (\<lambda>p. p \<noteq> Mark answer_start \<and> p \<noteq> Mark answer_end) (concat ?gs))"
    by (simp add: text_of_simps)
  have f: "text_of (filter (\<lambda>p. p \<noteq> Mark answer_start \<and> p \<noteq> Mark answer_end) (concat groups))
      = concat ws1 @ text_of (filter (\<lambda>p. p \<noteq> Mark answer_start \<and> p \<noteq> Mark answer_end)
          (concat ?gs))"
    by (simp add: g ws(2) filter_map_Free text_of_simps)
  have "map text_of groups = ?ds1 @ ?d # map text_of gs2"
    by (simp add: g text_of_simps)
  with i c k show ?thesis
    unfolding f
    by (simp add: feed_append [of self "[]" ?ds1] fragments_append P Let_def fragments_Cons r
        reasoning_of_simps content_of_simps)
qed

section \<open>The full-text extractor on texts made of pieces\<close>

lemma no_end_in_answer:
  assumes "blank w" and "untagged a"
  shows "\<not> sublist answer_end (w @ answer_start @ a)"
  using sublist_blank_append [OF assms(1) marker_mem(4), of "answer_start @ a"]
    sublist_marker_append [OF marker_mem(4) marker_mem(3), of a] assms(2)
  by (simp add: untagged_def marker_neq)

lemma answer_closed_facts:
  assumes "blank w" and "untagged a" and "s = w @ answer_start @ a @ answer_end @ q"
  shows "sublist answer_start s" and "sublist answer_end s"
    and "py_slice s (py_find s answer_start + int (length answer_start)) (py_find s answer_end)
          = a"
proof -
  have 1: "\<not> sublist answer_start w"
    using plain_no_marker [OF blank_plain [OF assms(1)] marker_mem(3)] .
  have 2: "\<not> sublist answer_end (w @ answer_start @ a)"
    using assms(1,2) by (rule no_end_in_answer)
  note b = between_first [OF assms(3) own_head_markers(3,4) 1 2]
  from b show "sublist answer_start s" and "sublist answer_end s"
    and "py_slice s (py_find s answer_start + int (length answer_start)) (py_find s answer_end)
          = a"
    by simp_all
qed

lemma answer_open_facts:
  assumes "blank w" and "s = w @ answer_start @ a"
  shows "sublist answer_start s"
    and "py_slice_from s (py_find s answer_start + int (length answer_start)) = a"
proof -
  have 1: "\<not> sublist answer_start w"
    using plain_no_marker [OF blank_plain [OF assms(1)] marker_mem(3)] .
  note b = after_first [OF assms(2) own_head_markers(3) 1]
  from b show "sublist answer_start s"
    and "py_slice_from s (py_find s answer_start + int (length answer_start)) = a"
    by simp_all
qed

lemma py_strip_answer_closed:
  assumes "blank w" and "blank q"
  shows "py_strip (w @ answer_start @ a @ answer_end @ q) = answer_start @ a @ answer_end"
proof -
  have "py_strip (w @ (answer_start @ a @ answer_end) @ q)
      = py_strip (answer_start @ a @ answer_end)"
    using assms by (rule py_strip_pad)
  moreover have "py_strip (answer_start @ a @ answer_end) = answer_start @ a @ answer_end"
    by (rule py_strip_id) (simp_all add: answer_start_def answer_end_def isspace_def)
  ultimately show ?thesis
    by simp
qed

lemma py_strip_answer_open:
  assumes "blank w"
  obtains y v where "a = y @ v" and "blank v"
    and "py_strip (w @ answer_start @ a) = answer_start @ y"
proof -
  obtain y v where a: "a = y @ v" and v: "blank v"
    and y: "rev (dropWhile isspace (rev a)) = y"
    by (rule rstrip_split)
  have "blank []"
    by (simp add: blank_def)
  with assms have 1: "py_strip (w @ (answer_start @ a) @ []) = py_strip (answer_start @ a)"
    by (rule py_strip_pad)
  have 2: "dropWhile isspace (answer_start @ a) = answer_start @ a"
    by (rule dropWhile_keep) (simp_all add: answer_start_def isspace_def)
  have 3: "dropWhile isspace (rev a @ rev answer_start)
      = dropWhile isspace (rev a) @ rev answer_start"
    by (rule dropWhile_before_kept) (simp_all add: answer_start_def isspace_def)
  have "py_strip (answer_start @ a) = answer_start @ y"
    by (simp add: py_strip_def 2 3 y)
  with 1 have "py_strip (w @ answer_start @ a) = answer_start @ y"
    by simp
  with a v show thesis
    by (rule that)
qed

lemma think_closed_content:
  assumes "\<not> sublist think_start pre" and "\<not> sublist think_end (pre @ think_start @ r)"
    and "content_pieces cps" and "blank w0"
  shows "extract_reasoning_content self (pre @ think_start @ r @ think_end @ text_of cps) request
    = (or_none (py_strip r),
       or_none (py_strip (w0 @ text_of
         (filter (\<lambda>p. p \<noteq> Mark answer_start \<and> p \<noteq> Mark answer_end) cps))))"
proof -
  note e = extract_reasoning_content_think [OF refl assms(1,2), where post = "text_of cps"
      and self = self and request = request]
  have b0: "blank []"
    by (simp add: blank_def)
  from assms(3) consider
    (free) cs where "cps = map Free cs" "untagged (concat cs)"
    | (opened) ws aa where "blank (concat ws)" "untagged (concat aa)"
        "cps = map Free ws @ Mark answer_start # map Free aa"
    | (closed) ws aa qs where "blank (concat ws)" "untagged (concat aa)" "blank (concat qs)"
        "cps = map Free ws @ Mark answer_start # map Free aa @ Mark answer_end # map Free qs"
    unfolding content_pieces_def answer_pieces_def by blast
  then show ?thesis
  proof cases
    case free
    have t: "text_of cps = concat cs"
      by (simp add: free(1) text_of_simps)
    have "\<not> sublist answer_start (concat cs)"
      using free(2) by (simp add: untagged_def)
    with py_strip_sublist have "\<not> sublist answer_start (py_strip (concat cs))"
      by (rule not_sublist_sub)
    moreover have "py_strip (w0 @ concat cs @ []) = py_strip (concat cs)"
      using assms(4) b0 by (rule py_strip_pad)
    ultimately show ?thesis
      unfolding e unfolding t by (simp add: free(1) filter_map_Free text_of_simps)
  next
    case opened
    let ?a = "concat aa"
    have t: "text_of cps = concat ws @ answer_start @ ?a"
      by (simp add: opened(3) text_of_simps)
    have f: "text_of (filter (\<lambda>p. p \<noteq> Mark answer_start \<and> p \<noteq> Mark answer_end) cps)
        = concat ws @ ?a"
      by (simp add: opened(3) filter_map_Free text_of_simps)
    obtain y v where a: "?a = y @ v" and v: "blank v"
      and s: "py_strip (concat ws @ answer_start @ ?a) = answer_start @ y"
      using opened(1) by (rule py_strip_answer_open)
    have uy: "untagged y"
      using opened(2) unfolding a untagged_def by (auto dest: not_sublist_left)
    have n: "\<not> sublist answer_end (answer_start @ y)"
      using no_end_in_answer [OF b0 uy] by simp
    note o = answer_open_facts [OF b0, of "answer_start @ y" y, simplified]
    have 1: "py_strip (w0 @ concat ws @ ?a) = py_strip ?a"
      using py_strip_pad [of "w0 @ concat ws" "[]" ?a] assms(4) opened(1) b0
      by (simp add: blank_append)
    have 2: "py_strip ?a = py_strip y"
      using py_strip_pad [OF b0 v, of y] by (simp add: a)
    show ?thesis
      unfolding e unfolding t s f using n o by (simp add: 1 2)
  next
    case closed
    let ?a = "concat aa"
    have t: "text_of cps = concat ws @ answer_start @ ?a @ answer_end @ concat qs"
      by (simp add: closed(4) text_of_simps)
    have f: "text_of (filter (\<lambda>p. p \<noteq> Mark answer_start \<and> p \<noteq> Mark answer_end) cps)
        = concat ws @ ?a @ concat qs"
      by (simp add: closed(4) filter_map_Free text_of_simps marker_neq)
    have s: "py_strip (concat ws @ answer_start @ ?a @ answer_end @ concat qs)
        = answer_start @ ?a @ answer_end"
      using closed(1,3) by (rule py_strip_answer_closed)
    note c = answer_closed_facts [OF b0 closed(2), of "answer_start @ ?a @ answer_end" "[]",
        simplified]
    have 1: "py_strip (w0 @ concat ws @ ?a @ concat qs) = py_strip ?a"
      using py_strip_pad [of "w0 @ concat ws" "concat qs" ?a] assms(4) closed(1,3)
      by (simp add: blank_append)
    show ?thesis
      unfolding e unfolding t s f using c by (simp add: 1)
  qed
qed

lemma think_open_full:
  assumes "\<not> sublist think_start pre" and "\<not> sublist think_end (pre @ think_start @ r)"
  shows "extract_reasoning_content self (pre @ think_start @ r) request
    = (or_none (py_strip r), None)"
  using after_first [OF refl own_head_markers(1) assms(1), of r] assms(2)
  by (simp add: extract_reasoning_content_def Let_def py_in_iff_sublist or_none_def)

lemma answer_only_full:
  assumes "answer_pieces ps" and "\<not> sublist think_start (text_of ps)"
  shows "extract_reasoning_content self (text_of ps) request
    = (None, or_none (py_strip (text_of
         (filter (\<lambda>p. p \<noteq> Mark answer_start \<and> p \<noteq> Mark answer_end) ps))))"
proof -
  from assms(1) consider
    (opened) ws aa where "blank (concat ws)" "untagged (concat aa)"
        "ps = map Free ws @ Mark answer_start # map Free aa"
    | (closed) ws aa qs where "blank (concat ws)" "untagged (concat aa)" "blank (concat qs)"
        "ps = map Free ws @ Mark answer_start # map Free aa @ Mark answer_end # map Free qs"
    unfolding answer_pieces_def by blast
  then show ?thesis
  proof cases
    case opened
    let ?a = "concat aa"
    have t: "text_of ps = concat ws @ answer_start @ ?a"
      by (simp add: opened(3) text_of_simps)
    have f: "text_of (filter (\<lambda>p. p \<noteq> Mark answer_start \<and> p \<noteq> Mark answer_end) ps)
        = concat ws @ ?a"
      by (simp add: opened(3) filter_map_Free text_of_simps)
    have n: "\<not> sublist answer_end (concat ws @ answer_start @ ?a)"
      using opened(1,2) by (rule no_end_in_answer)
    note o = answer_open_facts [OF opened(1) refl, of ?a]
    have 1: "py_strip (concat ws @ ?a) = py_strip ?a"
      using py_strip_pad [OF opened(1), of "[]" ?a] by (simp add: blank_def)
    show ?thesis
      using assms(2) n o unfolding t f
      by (simp add: extract_reasoning_content_def Let_def py_in_iff_sublist or_none_def 1)
  next
    case closed
    let ?a = "concat aa"
    have t: "text_of ps = concat ws @ answer_start @ ?a @ answer_end @ concat qs"
      by (simp add: closed(4) text_of_simps)
    have f: "text_of (filter (\<lambda>p. p \<noteq> Mark answer_start \<and> p \<noteq> Mark answer_end) ps)
        = concat ws @ ?a @ concat qs"
      by (simp add: closed(4) filter_map_Free text_of_simps marker_neq)
    note c = answer_closed_facts [OF closed(1,2) refl, of "concat qs"]
    have 1: "py_strip (concat ws @ ?a @ concat qs) = py_strip ?a"
      using closed(1,3) by (rule py_strip_pad)
    show ?thesis
      using assms(2) c unfolding t f
      by (simp add: extract_reasoning_content_def Let_def py_in_iff_sublist or_none_def 1)
  qed
qed

lemma plain_full:
  assumes "\<not> sublist think_start t" and "\<not> sublist answer_start t"
  shows "extract_reasoning_content self t request = (None, or_none (py_strip t))"
  using assms
  by (simp add: extract_reasoning_content_def Let_def py_in_iff_sublist or_none_def)

section \<open>The streaming parser against the full-text extractor\<close>

lemma concat_texts: "concat (map text_of gs) = text_of (concat gs)"
  by (simp add: text_of_concat)

lemma think_splitI:
  assumes "deltas = map text_of (gs0 @ (Free pre # Mark think_start # g2) # gs2)"
    and "blank (text_of (concat gs0))"
    and "\<not> sublist think_start pre"
    and "\<not> sublist think_end (pre @ think_start @ concat rs)"
    and "g2 @ concat gs2 = map Free rs @ tail"
    and "tail = [] \<or> (\<exists>cps. tail = Mark think_end # cps \<and> content_pieces cps)"
  shows "think_split deltas"
  unfolding think_split_def using assms by blast

lemma answer_piecesI:
  assumes "blank (concat ws)" and "untagged (concat aa)" and "blank (concat qs)"
  shows "answer_pieces (map Free ws @ Mark answer_start # map Free aa @ Mark answer_end
           # map Free qs)"
  unfolding answer_pieces_def using assms by blast

text \<open>
  Claim C1, as the code has it.  Take a list of deltas that is a \<open>plain_split\<close>, an
  \<open>answer_split\<close> or a \<open>think_split\<close>: the \<open><think>\<close> that opens the reasoning, the
  \<open></think>\<close> that closes it and the answer tags arrive uncut; only whitespace comes in
  the deltas before the one with \<open><think>\<close>; only whitespace stands before \<open><answer>\<close>
  and after \<open></answer>\<close>, and the answer holds no further tag.  Everything else is
  free: the other text may hold \<open><\<close> and parts of markers and is cut anywhere, the
  single delta included, and the think block and the answer may be unterminated.  Fed to
  a fresh parser, the reasoning fragments concatenated, then trimmed and taken as absent
  when empty, are the reasoning \<open>extract_reasoning_content\<close> returns on the whole text;
  and the content fragments give its answer in the same way.
\<close>

theorem streaming_matches_full_text:
  assumes "plain_split deltas \<or> answer_split deltas \<or> think_split deltas"
  shows "streaming_agrees (init tok) deltas"
proof -
  let ?self = "init tok"
  let ?keep = "\<lambda>p. p \<noteq> Mark answer_start \<and> p \<noteq> Mark answer_end"
  have i: "current_state ?self = Initial"
    by (simp add: init_def)
  have e: "or_none (py_strip []) = None"
    by (simp add: or_none_def py_strip_def)
  from assms consider (plain) "plain_split deltas" | (answer) "answer_split deltas"
    | (think) "think_split deltas"
    by blast
  then show ?thesis
  proof cases
    case plain
    then have 1: "\<not> sublist think_start ([] @ concat deltas)"
      and 2: "\<not> sublist answer_start (concat deltas)"
      by (simp_all add: plain_split_def)
    from feed_initial_free [OF i 1 2] 1 2 show ?thesis
      by (simp add: streaming_agrees_def plain_full e)
  next
    case answer
    then obtain groups where d: "deltas = map text_of groups"
      and a: "answer_pieces (concat groups)"
      and n: "\<not> sublist think_start (concat deltas)"
      unfolding answer_split_def by blast
    have t: "concat deltas = text_of (concat groups)"
      by (simp add: d concat_texts)
    from a obtain ws rest where c: "concat groups = map Free ws @ Mark answer_start # rest"
      and w: "blank (concat ws)"
      unfolding answer_pieces_def by blast
    have s: "tag_safe (concat groups)"
      using a by (intro content_pieces_tag_safe) (simp add: content_pieces_def)
    have n': "\<not> sublist think_start (text_of (concat groups))"
      using n by (simp add: t)
    from feed_answer_groups [OF i c w s n', folded d] answer_only_full [OF a n', of ?self "()"]
    show ?thesis
      by (simp add: streaming_agrees_def t e)
  next
    case think
    then obtain gs0 pre g2 gs2 rs tail
      where d: "deltas = map text_of (gs0 @ (Free pre # Mark think_start # g2) # gs2)"
        and b: "blank (text_of (concat gs0))"
        and ns: "\<not> sublist think_start pre"
        and ne: "\<not> sublist think_end (pre @ think_start @ concat rs)"
        and g: "g2 @ concat gs2 = map Free rs @ tail"
        and tl: "tail = [] \<or> (\<exists>cps. tail = Mark think_end # cps \<and> content_pieces cps)"
      unfolding think_split_def by blast
    let ?w = "text_of (concat gs0)"
    have t: "concat deltas = (?w @ pre) @ think_start @ concat rs @ text_of tail"
    proof -
      have "concat deltas = ?w @ pre @ think_start @ text_of (g2 @ concat gs2)"
        by (simp add: d concat_texts text_of_simps)
      then show ?thesis
        by (simp add: g text_of_simps)
    qed
    have ns': "\<not> sublist think_start (?w @ pre)"
      using ns sublist_blank_append [OF b marker_mem(1), of pre] by simp
    have ne': "\<not> sublist think_end ((?w @ pre) @ think_start @ concat rs)"
      using ne sublist_blank_append [OF b marker_mem(2), of "pre @ think_start @ concat rs"]
      by simp
    have tl': "tail = [] \<or> (\<exists>cps. tail = Mark think_end # cps \<and> tag_safe cps)"
      using tl content_pieces_tag_safe by blast
    note f = feed_think_groups [OF i b ns ne g tl', folded d]
    show ?thesis
    proof (cases "tail = []")
      case True
      have "py_strip ?w = []"
        using b by (rule py_strip_blank)
      with f think_open_full [OF ns' ne', of ?self "()"] show ?thesis
        by (simp add: streaming_agrees_def t True text_of_simps or_none_def)
    next
      case False
      with tl obtain cps where c: "tail = Mark think_end # cps" "content_pieces cps"
        by blast
      from f think_closed_content [OF ns' ne' c(2) b, of ?self "()"] show ?thesis
        by (simp add: streaming_agrees_def t c(1) text_of_simps)
    qed
  qed
qed

text \<open>
  The text " x<think>a<bc</think> <answer> yz </answer> " in five deltas, with text before
  \<open><think>\<close>, a \<open><\<close> inside the reasoning and whitespace around the answer tags:
  both extractors give ("a<bc", "yz").
\<close>

theorem streaming_matches_full_text_witness:
  "streaming_agrees (init char_tokenizer)
     ['' '', ''x<think>a<b'', ''c</think> <answer>'', '' y'', ''z </answer> '']
   \<and> extract_reasoning_content (init char_tokenizer)
       (concat ['' '', ''x<think>a<b'', ''c</think> <answer>'', '' y'', ''z </answer> '']) ()
     = (Some ''a<bc'', Some ''yz'')"
proof -
  let ?deltas = "['' '', ''x<think>a<b'', ''c</think> <answer>'', '' y'', ''z </answer> '']"
  let ?cps = "map Free ['' ''] @ Mark answer_start # map Free ['' y'', ''z ''] @ Mark answer_end
      # map Free ['' '']"
  have c: "content_pieces ?cps"
    unfolding content_pieces_def
    by (rule disjI2, rule answer_piecesI) (simp_all add: blank_def isspace_def untagged_def
        answer_start_def answer_end_def sublist_Cons_right)
  have "think_split ?deltas"
  proof (rule think_splitI [where ?gs0.0 = "[[Free '' '']]" and pre = "''x''"
        and ?g2.0 = "[Free ''a<b'']"
        and ?gs2.0 = "[[Free ''c'', Mark think_end, Free '' '', Mark answer_start],
             [Free '' y''], [Free ''z '', Mark answer_end, Free '' '']]"
        and rs = "[''a<b'', ''c'']" and tail = "Mark think_end # ?cps"])
    show "?deltas = map text_of ([[Free '' '']] @ (Free ''x'' # Mark think_start # [Free ''a<b''])
        # [[Free ''c'', Mark think_end, Free '' '', Mark answer_start],
             [Free '' y''], [Free ''z '', Mark answer_end, Free '' '']])"
      by (simp add: text_of_def think_start_def think_end_def answer_start_def answer_end_def)
    show "blank (text_of (concat [[Free '' '']]))"
      by (simp add: text_of_def blank_def isspace_def)
    show "\<not> sublist think_start ''x''"
      by code_simp
    show "\<not> sublist think_end (''x'' @ think_start @ concat [''a<b'', ''c''])"
      by code_simp
    show "[Free ''a<b''] @ concat [[Free ''c'', Mark think_end, Free '' '', Mark answer_start],
             [Free '' y''], [Free ''z '', Mark answer_end, Free '' '']]
        = map Free [''a<b'', ''c''] @ Mark think_end # ?cps"
      by simp
    show "Mark think_end # ?cps = [] \<or> (\<exists>cps. Mark think_end # ?cps = Mark think_end # cps
        \<and> content_pieces cps)"
      using c by blast
  qed
  then have "streaming_agrees (init char_tokenizer) ?deltas"
    using streaming_matches_full_text [of ?deltas char_tokenizer] by blast
  moreover have "extract_reasoning_content (init char_tokenizer) (concat ?deltas) ()
      = (Some ''a<bc'', Some ''yz'')"
    by code_simp
  ultimately show ?thesis
    by (rule conjI)
qed

text \<open>
  The claim for every text and every split fails, and it fails on each kind of text or
  split left out above: a marker cut in two by a delta boundary (\<open></think>\<close>, \<open><think>\<close>,
  \<open><answer>\<close>, \<open></answer>\<close>); text after \<open></answer>\<close>, with or without a think block; text
  before \<open><answer>\<close>, with or without a think block; text in a delta before the one
  with \<open><think>\<close>; \<open></answer>\<close> without \<open><answer>\<close>; \<open></think>\<close> before \<open><think>\<close>; and a
  second \<open><answer>\<close> inside the answer.
\<close>

theorem streaming_differs_from_full_text:
  "\<not> streaming_agrees (init char_tokenizer) [''<think>a</thi'', ''nk>b'']
   \<and> \<not> streaming_agrees (init char_tokenizer) [''<thi'', ''nk>a</think>b'']
   \<and> \<not> streaming_agrees (init char_tokenizer) [''<ans'', ''wer>b</answer>'']
   \<and> \<not> streaming_agrees (init char_tokenizer) [''<answer>b</ans'', ''wer>'']
   \<and> \<not> streaming_agrees (init char_tokenizer) [''<think>a</think><answer>b</answer>c'']
   \<and> \<not> streaming_agrees (init char_tokenizer) [''<answer>b</answer>c'']
   \<and> \<not> streaming_agrees (init char_tokenizer) [''<think>a</think>x<answer>b</answer>'']
   \<and> \<not> streaming_agrees (init char_tokenizer) [''x<answer>a</answer>'']
   \<and> \<not> streaming_agrees (init char_tokenizer) [''x'', ''<think>a</think>b'']
   \<and> \<not> streaming_agrees (init char_tokenizer) [''<think>a</think>b</answer>'']
   \<and> \<not> streaming_agrees (init char_tokenizer) [''</think><think>a</think>b'']
   \<and> \<not> streaming_agrees (init char_tokenizer) [''<answer>a<answer>b</answer>'']"
  by code_simp

end
